theory Spec2Isabelle
  imports Main "HOL-Library.Word"
begin

section \<open>The compiler of \<^verbatim>\<open>src/compiler.py\<close>\<close>

subsection \<open>Types and values\<close>

text \<open>
  The four type classes \<^verbatim>\<open>ByteType\<close>, \<^verbatim>\<open>ListType\<close>, \<^verbatim>\<open>VirtualIntegerType\<close> and
  \<^verbatim>\<open>VirtualListType\<close>. Each instance also holds a reference to the one module-level
  compiler object; that object is the state threaded through the functions below, so the
  reference is not a field here.
\<close>

datatype pytype =
    ByteType
  | ListType pytype int
  | VirtualIntegerType
  | VirtualListType

text \<open>\<^verbatim>\<open>Byte.__init__(self, type, compiler, pointer)\<close> and
  \<^verbatim>\<open>VirtualInteger.__init__(self, type, value)\<close>.\<close>

datatype byte = Byte (byte_type: pytype) (pointer: int)

datatype virtual_integer = VirtualInteger (vint_type: pytype) (vint_value: int)

text \<open>The Python objects an \<^verbatim>\<open>__eq__\<close> method can receive as \<^verbatim>\<open>other\<close>, and their classes.\<close>

datatype pyobj =
    TypeObj pytype
  | ByteObj byte
  | ListObj pytype "pyobj list"
  | VirtualIntegerObj virtual_integer
  | VirtualListObj pytype "pyobj list"
  | NoneObj

datatype pyclass =
    C_ByteType | C_Byte | C_ListType | C_List
  | C_VirtualIntegerType | C_VirtualInteger | C_VirtualListType | C_VirtualList
  | C_NoneType

fun class_of_type :: "pytype \<Rightarrow> pyclass" where
  "class_of_type ByteType = C_ByteType"
| "class_of_type (ListType t n) = C_ListType"
| "class_of_type VirtualIntegerType = C_VirtualIntegerType"
| "class_of_type VirtualListType = C_VirtualListType"

fun class_of :: "pyobj \<Rightarrow> pyclass" where
  "class_of (TypeObj t) = class_of_type t"
| "class_of (ByteObj b) = C_Byte"
| "class_of (ListObj t vs) = C_List"
| "class_of (VirtualIntegerObj v) = C_VirtualInteger"
| "class_of (VirtualListObj t vs) = C_VirtualList"
| "class_of NoneObj = C_NoneType"

text \<open>
  The \<^verbatim>\<open>__eq__\<close> methods, \<^verbatim>\<open>self == other\<close>:
  \<^verbatim>\<open>ByteType\<close>: \<^verbatim>\<open>isinstance(other, ByteType)\<close>;
  \<^verbatim>\<open>ListType\<close>: \<^verbatim>\<open>False\<close> unless \<^verbatim>\<open>isinstance(other, ListType)\<close>, then
  \<^verbatim>\<open>self.type == other.type\<close>;
  \<^verbatim>\<open>VirtualIntegerType\<close>: \<^verbatim>\<open>type(other) == VirtualInteger\<close>;
  \<^verbatim>\<open>VirtualListType\<close>: \<^verbatim>\<open>type(other) == VirtualListType\<close>.
  No class of the program has a subclass, so \<^verbatim>\<open>isinstance\<close> is a test of the class.
\<close>

fun type_eq :: "pytype \<Rightarrow> pyobj \<Rightarrow> bool" where
  "type_eq ByteType other = (class_of other = C_ByteType)"
| "type_eq (ListType t n) other =
     (case other of
        TypeObj (ListType t' n') \<Rightarrow> type_eq t (TypeObj t')
      | _ \<Rightarrow> False)"
| "type_eq VirtualIntegerType other = (class_of other = C_VirtualInteger)"
| "type_eq VirtualListType other = (class_of other = C_VirtualListType)"

subsection \<open>Compiler state and exceptions\<close>

text \<open>The exceptions the modelled code raises: \<^verbatim>\<open>Exception("unbalanced loop")\<close> of
  \<^verbatim>\<open>Compiler.loop\<close>, and Python's own \<^verbatim>\<open>NameError\<close> and \<^verbatim>\<open>TypeError\<close>.\<close>

datatype exn = UnbalancedLoop | NameError | TypeError

text \<open>The fields of \<^verbatim>\<open>Compiler\<close> that the emitter and the allocator use. \<^verbatim>\<open>program\<close> is
  the list of the strings appended by \<^verbatim>\<open>execute\<close>.\<close>

record compiler =
  program :: "string list"
  current_index :: int
  non_allocated :: int
  gaps :: "int list"

definition Compiler_init :: compiler where
  "Compiler_init = \<lparr>program = [], current_index = 0, non_allocated = 0, gaps = []\<rparr>"

text \<open>A call that can raise returns the exception or the value, and the compiler as the
  call left it: Python does not undo the mutations made before a raise.\<close>

type_synonym 'a comp = "compiler \<Rightarrow> (exn + 'a) \<times> compiler"

definition ret :: "'a \<Rightarrow> 'a comp" where
  "ret v s = (Inr v, s)"

definition raise :: "exn \<Rightarrow> 'a comp" where
  "raise e s = (Inl e, s)"

definition seq :: "'a comp \<Rightarrow> ('a \<Rightarrow> 'b comp) \<Rightarrow> 'b comp" where
  "seq m f s = (case m s of (Inl e, s') \<Rightarrow> (Inl e, s') | (Inr v, s') \<Rightarrow> f v s')"

subsection \<open>Allocator\<close>

definition allocate :: "compiler \<Rightarrow> int \<times> compiler" where
  "allocate s =
     (if gaps s \<noteq> [] then (hd (gaps s), s)
      else (non_allocated s, s\<lparr>non_allocated := non_allocated s + 1\<rparr>))"

definition free_cell :: "int \<Rightarrow> compiler \<Rightarrow> compiler" where
  "free_cell index s =
     (if index + 1 = non_allocated s then s\<lparr>non_allocated := non_allocated s - 1\<rparr>
      else s\<lparr>gaps := gaps s @ [index]\<rparr>)"

text \<open>The cells the allocator's bookkeeping holds as allocated:
  the indices from 0 below \<^verbatim>\<open>non_allocated\<close> that are not in \<^verbatim>\<open>gaps\<close>.\<close>

definition live :: "compiler \<Rightarrow> int \<Rightarrow> bool" where
  "live s i = (0 \<le> i \<and> i < non_allocated s \<and> i \<notin> set (gaps s))"

subsection \<open>Emitter\<close>

definition execute :: "string \<Rightarrow> compiler \<Rightarrow> compiler" where
  "execute code s = s\<lparr>program := program s @ [code]\<rparr>"

text \<open>Python's \<^verbatim>\<open>c * n\<close> on a one-character string: empty when \<^verbatim>\<open>n\<close> is not positive.\<close>

definition times :: "char \<Rightarrow> int \<Rightarrow> string" where
  "times c n = replicate (nat n) c"

definition goto :: "int \<Rightarrow> compiler \<Rightarrow> compiler" where
  "goto index s =
     (if current_index s < index
      then execute (times (CHR ''>'') (index - current_index s)) s
      else execute (times (CHR ''<'') (current_index s - index)) s)
     \<lparr>current_index := index\<rparr>"

text \<open>
  \<^verbatim>\<open>with self.loop(): body\<close>. The context manager has no \<^verbatim>\<open>try\<close>: an exception of the
  body leaves through the \<^verbatim>\<open>yield\<close>, and neither the \<^verbatim>\<open>]\<close> nor the check is reached.
\<close>

definition loop :: "unit comp \<Rightarrow> unit comp" where
  "loop body s =
     (let save = current_index s in
      case body (execute ''['' s) of
        (Inl e, s') \<Rightarrow> (Inl e, s')
      | (Inr u, s') \<Rightarrow>
          (let s'' = execute '']'' s' in
           if save \<noteq> current_index s'' then (Inl UnbalancedLoop, s'') else (Inr (), s'')))"

text \<open>The \<^verbatim>\<open>for target in targets\<close> loop of \<^verbatim>\<open>move_cell\<close>.\<close>

fun move_targets :: "int list \<Rightarrow> int \<Rightarrow> compiler \<Rightarrow> compiler" where
  "move_targets [] multiplier s = s"
| "move_targets (target # targets) multiplier s =
     move_targets targets multiplier (execute (times (CHR ''+'') multiplier) (goto target s))"

definition move_cell :: "int \<Rightarrow> int list \<Rightarrow> int \<Rightarrow> unit comp" where
  "move_cell source targets multiplier s =
     loop (\<lambda>s1. ret () (goto source (move_targets targets multiplier (execute ''-'' s1))))
       (goto source s)"

subsection \<open>Byte values\<close>

text \<open>
  A call of the class \<^verbatim>\<open>Byte\<close> with its positional arguments. \<^verbatim>\<open>__init__\<close> takes
  \<^verbatim>\<open>(type, compiler, pointer)\<close> and has no defaults, so a call with another number of
  arguments raises \<^verbatim>\<open>TypeError\<close>. The two call shapes of the source are
  \<^verbatim>\<open>Byte(<type>, <compiler>, <index>)\<close> and \<^verbatim>\<open>Byte(<compiler>, <index>)\<close>; an object with
  attributes of other kinds is not representable in \<^typ>\<open>byte\<close>.
\<close>

datatype arg = ArgType pytype | ArgCompiler | ArgInt int

fun Byte_call :: "arg list \<Rightarrow> exn + byte" where
  "Byte_call [ArgType t, ArgCompiler, ArgInt p] = Inr (Byte t p)"
| "Byte_call args = Inl TypeError"

text \<open>\<^verbatim>\<open>ByteType.new\<close>: \<^verbatim>\<open>Byte(self, self.compiler, self.compiler.allocate())\<close>.\<close>

definition ByteType_new :: "byte comp" where
  "ByteType_new s =
     (let (a, s1) = allocate s in
      (Byte_call [ArgType ByteType, ArgCompiler, ArgInt a], s1))"

text \<open>\<^verbatim>\<open>Byte.copy\<close>; its last line is \<^verbatim>\<open>return Byte(self.compiler, a1)\<close>.\<close>

definition copy :: "byte \<Rightarrow> byte comp" where
  "copy self s =
     (let (a1, s1) = allocate s;
          (a2, s2) = allocate s1 in
      seq (move_cell (pointer self) [a1, a2] 1) (\<lambda>_.
      seq (move_cell a2 [pointer self] 1) (\<lambda>_ s4.
      (let s5 = free_cell a2 s4 in
       (Byte_call [ArgCompiler, ArgInt a1], s5)))) s2)"

text \<open>\<^verbatim>\<open>Byte.free\<close>.\<close>

definition free :: "byte \<Rightarrow> compiler \<Rightarrow> compiler" where
  "free self s = free_cell (pointer self) s"

subsection \<open>Intrinsics\<close>

text \<open>The functions registered with \<^verbatim>\<open>@compiler.function\<close>, each typed by the parameter
  types it is registered under. A function without \<^verbatim>\<open>return\<close> returns \<^verbatim>\<open>None\<close>, here
  the unit value.\<close>

definition assign :: "byte \<Rightarrow> byte \<Rightarrow> unit comp" where
  "assign x y s =
     (let s1 = goto (pointer x) s;
          s2 = execute ''[-]'' s1 in
      move_cell (pointer y) [pointer x] 1 s2)"

definition assign_virtual :: "byte \<Rightarrow> virtual_integer \<Rightarrow> unit comp" where
  "assign_virtual x y s =
     (let s1 = goto (pointer x) s;
          s2 = execute ''[-]'' s1;
          s3 = execute (times (CHR ''+'') (vint_value y)) s2 in
      ret () s3)"

definition succ :: "byte \<Rightarrow> byte comp" where
  "succ x s =
     (let s1 = goto (pointer x) s;
          s2 = execute ''+'' s1 in
      ret x s2)"

definition pred :: "byte \<Rightarrow> byte comp" where
  "pred x s =
     (let s1 = goto (pointer x) s;
          s2 = execute ''-'' s1 in
      ret x s2)"

definition iadd :: "byte \<Rightarrow> byte \<Rightarrow> byte comp" where
  "iadd x y s =
     seq (move_cell (pointer y) [pointer x] 1) (\<lambda>_ s1.
     (let s2 = free y s1 in
      ret x s2)) s"

definition iadd_virtual :: "byte \<Rightarrow> virtual_integer \<Rightarrow> byte comp" where
  "iadd_virtual x y s =
     (let s1 = goto (pointer x) s;
          s2 = execute (times (CHR ''+'') (vint_value y)) s1 in
      ret x s2)"

text \<open>
  \<^verbatim>\<open>isub\<close> is a module-level function whose body begins \<^verbatim>\<open>self.goto(y)\<close>. The name
  \<^verbatim>\<open>self\<close> is neither a parameter nor a global of the module, so evaluating it raises
  \<^verbatim>\<open>NameError\<close> before anything is emitted.
\<close>

definition isub :: "byte \<Rightarrow> byte \<Rightarrow> byte comp" where
  "isub x y s = raise NameError s"

definition isub_virtual :: "byte \<Rightarrow> virtual_integer \<Rightarrow> byte comp" where
  "isub_virtual x y s =
     (let s1 = goto (pointer x) s;
          s2 = execute (times (CHR ''-'') (vint_value y)) s1 in
      ret x s2)"

definition imul :: "byte \<Rightarrow> byte \<Rightarrow> byte comp" where
  "imul x y s =
     seq (copy x) (\<lambda>x_prime s1.
     (let s2 = goto (pointer x) s1;
          s3 = execute ''[-]'' s2;
          s4 = goto (pointer y) s3 in
      seq (loop (\<lambda>t.
             (let t1 = execute ''-'' t in
              seq (copy x_prime) (\<lambda>x_prime_prime.
              seq (move_cell (pointer x_prime_prime) [pointer x] 1) (\<lambda>_ t3.
              (let t4 = free x_prime_prime t3;
                   t5 = goto (pointer y) t4 in
               ret () t5))) t1))) (\<lambda>_ s5.
      (let s6 = free y s5 in
       ret x s6)) s4)) s"

definition imul_virtual :: "byte \<Rightarrow> virtual_integer \<Rightarrow> byte comp" where
  "imul_virtual x y s =
     seq ByteType_new (\<lambda>x_prime.
     seq (move_cell (pointer x) [pointer x_prime] (vint_value y)) (\<lambda>_.
     seq (move_cell (pointer x_prime) [pointer x] 1) (\<lambda>_.
     ret x))) s"

definition nnot :: "byte \<Rightarrow> byte comp" where
  "nnot x s =
     seq ByteType_new (\<lambda>y s1.
     (let s2 = goto (pointer y) s1;
          s3 = execute ''[-]+'' s2;
          s4 = goto (pointer x) s3 in
      seq (loop (\<lambda>t.
             (let t1 = execute ''[-]'' t;
                  t2 = goto (pointer y) t1;
                  t3 = execute ''-'' t2;
                  t4 = goto (pointer x) t3 in
              ret () t4))) (\<lambda>_.
      ret y) s4)) s"

definition eq :: "byte \<Rightarrow> byte \<Rightarrow> byte comp" where
  "eq x y s =
     (let s1 = goto (pointer y) s in
      seq (loop (\<lambda>t.
             (let t1 = execute ''-'' t;
                  t2 = goto (pointer x) t1;
                  t3 = execute ''-'' t2;
                  t4 = goto (pointer y) t3 in
              ret () t4))) (\<lambda>_.
      seq ByteType_new (\<lambda>z s3.
      (let s4 = goto (pointer z) s3;
           s5 = execute ''[-]+'' s4;
           s6 = goto (pointer x) s5 in
       seq (loop (\<lambda>t.
              (let t1 = execute ''[-]'' t;
                   t2 = goto (pointer z) t1;
                   t3 = execute ''-'' t2;
                   t4 = goto (pointer x) t3 in
               ret () t4))) (\<lambda>_ s7.
       (let s8 = free x s7;
            s9 = free y s8 in
        ret z s9)) s6))) s1)"

definition read :: "byte comp" where
  "read s =
     (let (x, s1) = allocate s;
          s2 = goto x s1;
          s3 = execute '','' s2 in
      (Byte_call [ArgType ByteType, ArgCompiler, ArgInt x], s3))"

text \<open>The intrinsic \<^verbatim>\<open>write\<close> (the name is a keyword of Isabelle).\<close>

definition write_byte :: "byte \<Rightarrow> unit comp" where
  "write_byte x s =
     (let s1 = goto (pointer x) s;
          s2 = execute ''.'' s1 in
      ret () s2)"

section \<open>The target machine\<close>

text \<open>
  Modelled from the spec: the machine that runs the emitted characters. The repository
  holds the compiler only; section 6 of the spec fixes the semantics the emitted code is
  meant for: a tape of bytes, all zero at the start, a head that starts at index 0,
  \<^verbatim>\<open>+\<close> and \<^verbatim>\<open>-\<close> wrapping modulo 256, \<^verbatim>\<open>[\<close> skipping past its matching \<^verbatim>\<open>]\<close> when the
  cell under the head is zero, \<^verbatim>\<open>]\<close> jumping back to its matching \<^verbatim>\<open>[\<close> when it is not,
  \<^verbatim>\<open>.\<close> writing the cell and \<^verbatim>\<open>,\<close> reading into it. The tape is unbounded; here it
  is indexed by all integers. The spec leaves \<^verbatim>\<open>,\<close> at the end of the input to the
  machine: here it leaves the cell as it is, and no theorem below depends on that.
\<close>

record machine =
  tape :: "int \<Rightarrow> 8 word"
  head :: int
  inp :: "8 word list"
  outp :: "8 word list"

definition machine_init :: "8 word list \<Rightarrow> machine" where
  "machine_init bs = \<lparr>tape = (\<lambda>i. 0), head = 0, inp = bs, outp = []\<rparr>"

text \<open>One character other than a bracket.\<close>

definition step :: "char \<Rightarrow> machine \<Rightarrow> machine" where
  "step c m =
     (if c = CHR ''>'' then m\<lparr>head := head m + 1\<rparr>
      else if c = CHR ''<'' then m\<lparr>head := head m - 1\<rparr>
      else if c = CHR ''+'' then m\<lparr>tape := (tape m)(head m := tape m (head m) + 1)\<rparr>
      else if c = CHR ''-'' then m\<lparr>tape := (tape m)(head m := tape m (head m) - 1)\<rparr>
      else if c = CHR ''.'' then m\<lparr>outp := outp m @ [tape m (head m)]\<rparr>
      else if c = CHR '','' then
        (case inp m of
           [] \<Rightarrow> m
         | b # bs \<Rightarrow> m\<lparr>tape := (tape m)(head m := b), inp := bs\<rparr>)
      else m)"

text \<open>The text after a \<^verbatim>\<open>[\<close>, split at the matching \<^verbatim>\<open>]\<close>: the loop body and what
  follows the loop. The first argument counts the brackets opened inside the body.\<close>

fun split_loop :: "nat \<Rightarrow> string \<Rightarrow> (string \<times> string) option" where
  "split_loop d [] = None"
| "split_loop d (c # cs) =
     (if c = CHR '']'' \<and> d = 0 then Some ([], cs)
      else
        (case split_loop (if c = CHR ''['' then Suc d
                          else if c = CHR '']'' then d - 1 else d) cs of
           None \<Rightarrow> None
         | Some (body, rest) \<Rightarrow> Some (c # body, rest)))"

text \<open>Running a text with a bound on the number of steps. The result is \<open>None\<close> when the
  bound is reached or a bracket has no partner.\<close>

fun run :: "nat \<Rightarrow> string \<Rightarrow> machine \<Rightarrow> machine option" where
  "run 0 code m = None"
| "run (Suc n) [] m = Some m"
| "run (Suc n) (c # cs) m =
     (if c = CHR ''['' then
        (case split_loop 0 cs of
           None \<Rightarrow> None
         | Some (body, rest) \<Rightarrow>
             if tape m (head m) = 0 then run n rest m
             else (case run n body m of
                     None \<Rightarrow> None
                   | Some m' \<Rightarrow> run n (c # cs) m'))
      else if c = CHR '']'' then None
      else run n cs (step c m))"

text \<open>The text runs from \<open>m\<close> to completion and stops in \<open>m'\<close>.\<close>

definition runs :: "string \<Rightarrow> machine \<Rightarrow> machine \<Rightarrow> bool" where
  "runs code m m' = (\<exists>n. run n code m = Some m')"

text \<open>Every \<^verbatim>\<open>[\<close> has a matching \<^verbatim>\<open>]\<close> and the other way round, with \<open>d\<close> brackets open
  at the start.\<close>

fun bal :: "nat \<Rightarrow> string \<Rightarrow> bool" where
  "bal d [] = (d = 0)"
| "bal d (c # cs) =
     (if c = CHR ''['' then bal (Suc d) cs
      else if c = CHR '']'' then d \<noteq> 0 \<and> bal (d - 1) cs
      else bal d cs)"

section \<open>What the compiler emitted\<close>

text \<open>The output is the concatenation of the appended strings.\<close>

definition emitted :: "compiler \<Rightarrow> string" where
  "emitted s = concat (program s)"

text \<open>The strings appended between two compiler states, as one text.\<close>

definition emitted_since :: "compiler \<Rightarrow> compiler \<Rightarrow> string" where
  "emitted_since s s' = concat (drop (length (program s)) (program s'))"

text \<open>The head after a text, counted as the spec does: one to the right for each
  \<^verbatim>\<open>>\<close>, one to the left for each \<^verbatim>\<open><\<close>.\<close>

definition head_of :: "string \<Rightarrow> int" where
  "head_of cs = int (count_list cs (CHR ''>'')) - int (count_list cs (CHR ''<''))"

definition head_ok :: "compiler \<Rightarrow> bool" where
  "head_ok s = (current_index s = head_of (emitted s))"

text \<open>The program of \<open>s'\<close> is the program of \<open>s\<close> with strings appended whose
  concatenation has every bracket matched.\<close>

definition appended_balanced :: "compiler \<Rightarrow> compiler \<Rightarrow> bool" where
  "appended_balanced s s' =
     (take (length (program s)) (program s') = program s \<and> bal 0 (emitted_since s s'))"

text \<open>The same for the outcome of a call from \<open>s\<close>, when the call returns.\<close>

definition balanced_result :: "compiler \<Rightarrow> (exn + 'a) \<times> compiler \<Rightarrow> bool" where
  "balanced_result s r =
     (case r of (Inl e, s') \<Rightarrow> True | (Inr v, s') \<Rightarrow> appended_balanced s s')"

section \<open>Running what the compiler emitted\<close>

text \<open>
  The machine runs, from \<open>M\<close> to \<open>M'\<close>, the text the compiler appended between \<open>s\<close> and
  \<open>s'\<close>; the brackets of that text are matched, and the head of \<open>M'\<close> is where the
  compiler records it.
\<close>

definition tracks :: "compiler \<Rightarrow> compiler \<Rightarrow> machine \<Rightarrow> machine \<Rightarrow> bool" where
  "tracks s s' M M' =
     (appended_balanced s s' \<and> runs (emitted_since s s') M M' \<and> head M' = current_index s')"

text \<open>The content of cell \<open>i\<close> after running a text with a bound on the steps.\<close>

definition cell_after :: "nat \<Rightarrow> string \<Rightarrow> machine \<Rightarrow> int \<Rightarrow> 8 word option" where
  "cell_after n code M i = (case run n code M of None \<Rightarrow> None | Some M' \<Rightarrow> Some (tape M' i))"

text \<open>
  The statements \<^verbatim>\<open>byte x; x += A; x *= B; write(x);\<close> as the calls their evaluation makes:
  the declaration calls \<^verbatim>\<open>compiler.byte.new()\<close> and binds \<^verbatim>\<open>x\<close>; each of the three calls
  evaluates \<^verbatim>\<open>x\<close> to that byte and a literal to a \<^verbatim>\<open>VirtualInteger\<close>, and calls the
  intrinsic registered under the operator and the argument types, discarding what it
  returns.
\<close>

definition multiply_program :: "int \<Rightarrow> int \<Rightarrow> unit comp" where
  "multiply_program A B =
     seq ByteType_new (\<lambda>x.
     seq (iadd_virtual x (VirtualInteger VirtualIntegerType A)) (\<lambda>_.
     seq (imul_virtual x (VirtualInteger VirtualIntegerType B)) (\<lambda>_.
     write_byte x)))"

section \<open>Basic facts about the emitter\<close>

lemma snd_ret [simp]: "snd (ret v s) = s" "fst (ret v s) = Inr v"
  by (simp_all add: ret_def)

lemma head_of_Nil [simp]: "head_of [] = 0"
  by (simp add: head_of_def)

lemma head_of_Cons [simp]:
  "head_of (c # cs) = (if c = CHR ''>'' then 1 else if c = CHR ''<'' then - 1 else 0) + head_of cs"
  by (simp add: head_of_def)

lemma head_of_append [simp]: "head_of (a @ b) = head_of a + head_of b"
  by (induction a) auto

lemma head_of_replicate:
  "head_of (replicate k c) = (if c = CHR ''>'' then int k else if c = CHR ''<'' then - int k else 0)"
  by (induction k) auto

lemma head_of_times:
  "head_of (times c n) = (if c = CHR ''>'' then int (nat n) else if c = CHR ''<'' then - int (nat n) else 0)"
  by (simp add: times_def head_of_replicate)

lemma emitted_execute [simp]: "emitted (execute code s) = emitted s @ code"
  by (simp add: emitted_def execute_def)

lemma current_index_execute [simp]: "current_index (execute code s) = current_index s"
  by (simp add: execute_def)

lemma current_index_goto [simp]: "current_index (goto k s) = k"
  by (simp add: goto_def)

lemma move_cell_result: "fst (move_cell source targets multiplier s) = Inr ()"
  by (simp add: move_cell_def loop_def ret_def Let_def)

lemma seq_move_cell: "seq (move_cell a b c) f s = f () (snd (move_cell a b c s))"
  using move_cell_result [of a b c s]
  by (cases "move_cell a b c s") (simp add: seq_def)

lemma copy_result: "fst (copy self s) = Inl TypeError"
  by (simp add: copy_def seq_move_cell Let_def split: prod.splits)

section \<open>The predicted head\<close>

lemma head_ok_execute: "head_of code = 0 \<Longrightarrow> head_ok s \<Longrightarrow> head_ok (execute code s)"
  by (simp add: head_ok_def)

lemma head_ok_goto: "head_ok s \<Longrightarrow> head_ok (goto k s)"
  by (simp add: head_ok_def goto_def emitted_def execute_def times_def head_of_replicate)

lemma head_ok_allocate: "head_ok s \<Longrightarrow> head_ok (snd (allocate s))"
  by (simp add: head_ok_def allocate_def emitted_def)

lemma head_ok_free_cell: "head_ok s \<Longrightarrow> head_ok (free_cell i s)"
  by (simp add: head_ok_def free_cell_def emitted_def)

lemma head_ok_free: "head_ok s \<Longrightarrow> head_ok (free b s)"
  by (simp add: free_def head_ok_free_cell)

lemma head_ok_loop:
  assumes body: "\<And>t. head_ok t \<Longrightarrow> head_ok (snd (body t))" and s: "head_ok s"
  shows "head_ok (snd (loop body s))"
proof -
  have "head_ok (execute ''['' s)"
    using s by (simp add: head_ok_execute)
  then have "head_ok (snd (body (execute ''['' s)))"
    by (rule body)
  moreover have "head_ok t \<Longrightarrow> head_ok (execute '']'' t)" for t
    by (simp add: head_ok_execute)
  ultimately show ?thesis
    by (auto simp: loop_def Let_def split: prod.splits sum.splits)
qed

lemma head_ok_seq:
  "head_ok (snd (m s)) \<Longrightarrow> (\<And>v t. head_ok t \<Longrightarrow> head_ok (snd (f v t))) \<Longrightarrow>
   head_ok (snd (seq m f s))"
  by (auto simp: seq_def split: prod.splits sum.splits)

lemma head_ok_move_targets: "head_ok s \<Longrightarrow> head_ok (move_targets ts m s)"
  by (induction ts arbitrary: s) (simp_all add: head_ok_execute head_ok_goto head_of_times)

lemma head_ok_move_cell: "head_ok s \<Longrightarrow> head_ok (snd (move_cell src ts m s))"
  unfolding move_cell_def
  by (intro head_ok_loop) (simp_all add: head_ok_goto head_ok_move_targets head_ok_execute)

lemma head_ok_ByteType_new: "head_ok s \<Longrightarrow> head_ok (snd (ByteType_new s))"
  using head_ok_allocate [of s] by (cases "allocate s") (simp add: ByteType_new_def)

lemma head_ok_copy: "head_ok s \<Longrightarrow> head_ok (snd (copy b s))"
  unfolding copy_def Let_def
  apply (simp split: prod.splits)
  apply (intro allI impI head_ok_seq head_ok_move_cell)
   apply (metis head_ok_allocate snd_conv)
  apply (simp_all add: head_ok_free_cell)
  done

named_theorems hok

lemmas head_ok_rules [hok] = head_ok_execute head_ok_goto head_ok_free_cell head_ok_free head_ok_loop
  head_ok_seq head_ok_move_cell head_ok_ByteType_new head_ok_copy

lemma head_ok_assign: "head_ok s \<Longrightarrow> head_ok (snd (assign x y s))"
  unfolding assign_def Let_def by (intro hok) simp_all

lemma head_ok_assign_virtual: "head_ok s \<Longrightarrow> head_ok (snd (assign_virtual x v s))"
  unfolding assign_virtual_def Let_def by (simp, intro hok) (simp_all add: head_of_times)

lemma head_ok_succ: "head_ok s \<Longrightarrow> head_ok (snd (succ x s))"
  unfolding succ_def Let_def by (simp, intro hok) simp_all

lemma head_ok_pred: "head_ok s \<Longrightarrow> head_ok (snd (pred x s))"
  unfolding pred_def Let_def by (simp, intro hok) simp_all

lemma head_ok_iadd: "head_ok s \<Longrightarrow> head_ok (snd (iadd x y s))"
  unfolding iadd_def Let_def by (intro hok) (simp_all add: hok)

lemma head_ok_iadd_virtual: "head_ok s \<Longrightarrow> head_ok (snd (iadd_virtual x v s))"
  unfolding iadd_virtual_def Let_def by (simp, intro hok) (simp_all add: head_of_times)

lemma head_ok_isub: "head_ok s \<Longrightarrow> head_ok (snd (isub x y s))"
  by (simp add: isub_def raise_def)

lemma head_ok_isub_virtual: "head_ok s \<Longrightarrow> head_ok (snd (isub_virtual x v s))"
  unfolding isub_virtual_def Let_def by (simp, intro hok) (simp_all add: head_of_times)

lemma head_ok_imul: "head_ok s \<Longrightarrow> head_ok (snd (imul x y s))"
  unfolding imul_def Let_def by (intro hok) (simp_all add: hok)

lemma head_ok_imul_virtual: "head_ok s \<Longrightarrow> head_ok (snd (imul_virtual x v s))"
  unfolding imul_virtual_def Let_def by (intro hok) (simp_all add: hok)

lemma head_ok_nnot: "head_ok s \<Longrightarrow> head_ok (snd (nnot x s))"
  unfolding nnot_def Let_def by (intro hok) (simp_all add: hok)

lemma head_ok_eq: "head_ok s \<Longrightarrow> head_ok (snd (eq x y s))"
  unfolding eq_def Let_def by (intro hok) (simp_all add: hok)

lemma head_ok_read: "head_ok s \<Longrightarrow> head_ok (snd (read s))"
  unfolding read_def Let_def
  using head_ok_allocate [of s] by (cases "allocate s") (auto intro!: hok)

lemma head_ok_write_byte: "head_ok s \<Longrightarrow> head_ok (snd (write_byte x s))"
  unfolding write_byte_def Let_def by (simp, intro hok) simp_all

lemma head_ok_init: "head_ok Compiler_init"
  by (simp add: head_ok_def Compiler_init_def emitted_def)

text \<open>
  C1. Head prediction soundness. When the recorded head \<open>current_index\<close> equals the head
  obtained from the emitted characters (the number of \<^verbatim>\<open>>\<close> minus the number of \<^verbatim>\<open><\<close>),
  it still does after \<open>goto\<close>, after \<open>move_cell\<close>, after a \<open>loop\<close> around any body that
  keeps it, and after each of the fourteen intrinsics, whether the call returns or
  raises; and after \<open>goto k\<close> the recorded head is \<open>k\<close>. It holds in the initial compiler
  (see the witness), so it holds after every sequence of these operations.
\<close>

theorem head_prediction_sound:
  assumes "head_ok s"
  shows "head_ok (goto k s) \<and> current_index (goto k s) = k
    \<and> head_ok (snd (move_cell src dsts m s))
    \<and> ((\<forall>t. head_ok t \<longrightarrow> head_ok (snd (body t))) \<longrightarrow> head_ok (snd (loop body s)))
    \<and> head_ok (snd (assign x y s))
    \<and> head_ok (snd (assign_virtual x v s))
    \<and> head_ok (snd (succ x s))
    \<and> head_ok (snd (pred x s))
    \<and> head_ok (snd (iadd x y s))
    \<and> head_ok (snd (iadd_virtual x v s))
    \<and> head_ok (snd (isub x y s))
    \<and> head_ok (snd (isub_virtual x v s))
    \<and> head_ok (snd (imul x y s))
    \<and> head_ok (snd (imul_virtual x v s))
    \<and> head_ok (snd (nnot x s))
    \<and> head_ok (snd (eq x y s))
    \<and> head_ok (snd (read s))
    \<and> head_ok (snd (write_byte x s))"
proof -
  have "(\<forall>t. head_ok t \<longrightarrow> head_ok (snd (body t))) \<longrightarrow> head_ok (snd (loop body s))"
    using assms by (auto intro: head_ok_loop)
  with assms show ?thesis
    by (simp add: head_ok_goto head_ok_move_cell head_ok_assign head_ok_assign_virtual
        head_ok_succ head_ok_pred head_ok_iadd head_ok_iadd_virtual head_ok_isub
        head_ok_isub_virtual head_ok_imul head_ok_imul_virtual head_ok_nnot head_ok_eq
        head_ok_read head_ok_write_byte)
qed

theorem head_prediction_sound_witness:
  "head_ok Compiler_init
   \<and> head_ok (goto 3 Compiler_init) \<and> current_index (goto 3 Compiler_init) = 3
   \<and> head_ok (snd (move_cell 0 [1, 2] 5 Compiler_init))
   \<and> head_ok (snd (loop (\<lambda>t. ret () (goto 0 (goto 2 t))) Compiler_init))
   \<and> head_ok (snd (eq (Byte ByteType 0) (Byte ByteType 1) Compiler_init))"
proof -
  have body: "\<forall>t. head_ok t \<longrightarrow> head_ok (snd ((\<lambda>t. ret () (goto 0 (goto 2 t))) t))"
    by (simp add: head_ok_goto)
  from head_prediction_sound [OF head_ok_init, where k = 3 and src = 0 and dsts = "[1, 2]"
      and m = 5 and body = "\<lambda>t. ret () (goto 0 (goto 2 t))"
      and x = "Byte ByteType 0" and y = "Byte ByteType 1"] body head_ok_init
  show ?thesis by blast
qed

section \<open>Type equality\<close>

text \<open>
  C9. Type equality. The claim asks that any two virtual-integer type values compare
  equal. \<^verbatim>\<open>VirtualIntegerType.__eq__\<close> tests \<^verbatim>\<open>type(other) == VirtualInteger\<close>, the class
  of the values: the virtual-integer type is not equal to itself, and it is equal to a
  virtual-integer value.
\<close>

theorem virtual_integer_type_eq_fails:
  "type_eq VirtualIntegerType (TypeObj VirtualIntegerType) = False
   \<and> type_eq VirtualIntegerType (VirtualIntegerObj (VirtualInteger VirtualIntegerType 0)) = True
   \<and> type_eq (ListType VirtualIntegerType 2) (TypeObj (ListType VirtualIntegerType 2)) = False"
  by simp

section \<open>The intrinsics that raise\<close>

text \<open>
  C7. The intrinsic \<^verbatim>\<open>-=\<close> on two bytes. The claim asks that it emits the subtraction
  loop without a compiler fault. In every compiler state and for every pair of bytes,
  \<open>isub\<close> raises \<^verbatim>\<open>NameError\<close> and emits nothing.
\<close>

theorem isub_raises: "isub x y s = (Inl NameError, s)"
  by (simp add: isub_def raise_def)

text \<open>
  C8. \<^verbatim>\<open>Byte.copy\<close>. The claim asks that \<open>copy\<close> succeeds and returns a byte owning the
  first auxiliary cell. In every compiler state and for every byte, \<open>copy\<close> raises
  \<^verbatim>\<open>TypeError\<close>: the result is built with two of the three arguments of \<^verbatim>\<open>Byte\<close>.
\<close>

theorem copy_raises: "fst (copy self s) = Inl TypeError"
  by (rule copy_result)

section \<open>The allocator\<close>

text \<open>
  C2. Allocator. The claim asks that \<open>allocate\<close> removes the gap it returns, and so never
  returns a cell that is allocated and not yet freed. From the initial compiler:
  allocate (cell 0), allocate (cell 1), free cell 0, allocate (cell 0 again, from the
  gaps), allocate: the last call returns cell 0 a second time, with no free in between,
  and cell 0 is still among the gaps.
\<close>

theorem allocate_returns_live_cell:
  "(let (a, s1) = allocate Compiler_init;
        (b, s2) = allocate s1;
        s3 = free_cell a s2;
        (c, s4) = allocate s3;
        (d, s5) = allocate s4
    in (a, b, gaps s3, c, gaps s4, d, gaps s5)) = (0, 1, [0], 0, [0], 0, [0])"
  by (simp add: allocate_def free_cell_def Compiler_init_def)

section \<open>Matched brackets\<close>

lemma bal_append: "bal d a \<Longrightarrow> bal e b \<Longrightarrow> bal (d + e) (a @ b)"
proof (induction a arbitrary: d)
  case Nil
  then show ?case by simp
next
  case (Cons c a)
  show ?case
  proof (cases "c = CHR '']''")
    case True
    with Cons.prems have d: "d \<noteq> 0" and a: "bal (d - 1) a" by auto
    from Cons.IH [OF a Cons.prems(2)] have "bal (d - 1 + e) (a @ b)" .
    moreover have "d - 1 + e = d + e - 1" using d by simp
    ultimately show ?thesis using True d by simp
  next
    case False
    with Cons show ?thesis by (cases "c = CHR ''[''") (auto simp flip: add_Suc)
  qed
qed

lemma bal_append0: "bal 0 a \<Longrightarrow> bal 0 b \<Longrightarrow> bal 0 (a @ b)"
  using bal_append [of 0 a 0 b] by simp

lemma bal_bracket: "bal 0 a \<Longrightarrow> bal 0 (CHR ''['' # a @ '']'')"
  using bal_append [of 0 a 1 "'']''"] by simp

lemma bal_replicate: "c \<noteq> CHR ''['' \<Longrightarrow> c \<noteq> CHR '']'' \<Longrightarrow> bal d (replicate k c) = (d = 0)"
  by (induction k) auto

lemma bal_times: "c \<noteq> CHR ''['' \<Longrightarrow> c \<noteq> CHR '']'' \<Longrightarrow> bal 0 (times c n)"
  by (simp add: times_def bal_replicate)

lemma appended_balanced_iff:
  "appended_balanced s s' \<longleftrightarrow> (\<exists>xs. program s' = program s @ xs \<and> bal 0 (concat xs))"
proof
  assume "appended_balanced s s'"
  then have t: "take (length (program s)) (program s') = program s"
    and b: "bal 0 (concat (drop (length (program s)) (program s')))"
    by (simp_all add: appended_balanced_def emitted_since_def)
  have "program s' = program s @ drop (length (program s)) (program s')"
    using t by (metis append_take_drop_id)
  with b show "\<exists>xs. program s' = program s @ xs \<and> bal 0 (concat xs)" by blast
next
  assume "\<exists>xs. program s' = program s @ xs \<and> bal 0 (concat xs)"
  then show "appended_balanced s s'"
    by (auto simp: appended_balanced_def emitted_since_def)
qed

lemma ab_refl: "appended_balanced s s"
  by (simp add: appended_balanced_iff)

lemma ab_trans: "appended_balanced s t \<Longrightarrow> appended_balanced t u \<Longrightarrow> appended_balanced s u"
  by (auto simp: appended_balanced_iff bal_append0)

lemma ab_execute: "appended_balanced s t \<Longrightarrow> bal 0 code \<Longrightarrow> appended_balanced s (execute code t)"
  by (auto simp: appended_balanced_iff execute_def bal_append0)

lemma ab_goto: "appended_balanced s t \<Longrightarrow> appended_balanced s (goto k t)"
  by (auto simp: appended_balanced_iff execute_def goto_def bal_append0 bal_times)

lemma ab_free_cell: "appended_balanced s t \<Longrightarrow> appended_balanced s (free_cell i t)"
  by (simp add: appended_balanced_def emitted_since_def free_cell_def)

lemma ab_free: "appended_balanced s t \<Longrightarrow> appended_balanced s (free b t)"
  by (simp add: free_def ab_free_cell)

lemma ab_allocate: "appended_balanced s t \<Longrightarrow> appended_balanced s (snd (allocate t))"
  by (simp add: appended_balanced_def emitted_since_def allocate_def)

lemma ab_loop_step:
  assumes "appended_balanced (execute ''['' t) t'"
  shows "appended_balanced t (execute '']'' t')"
proof -
  from assms obtain xs where xs: "program t' = program t @ [''[''] @ xs" and b: "bal 0 (concat xs)"
    by (auto simp: appended_balanced_iff execute_def)
  have "program (execute '']'' t') = program t @ ([''[''] @ xs @ ['']''])"
    using xs by (simp add: execute_def)
  moreover have "bal 0 (concat ([''[''] @ xs @ ['']'']))"
    using bal_bracket [OF b] by simp
  ultimately show ?thesis unfolding appended_balanced_iff by blast
qed

lemma br_ret: "appended_balanced s t \<Longrightarrow> balanced_result s (ret v t)"
  by (simp add: balanced_result_def ret_def)

lemma br_seq:
  "balanced_result s (m t) \<Longrightarrow> (\<And>v t'. appended_balanced s t' \<Longrightarrow> balanced_result s (f v t')) \<Longrightarrow>
   balanced_result s (seq m f t)"
  unfolding balanced_result_def seq_def
  by (cases "m t"; cases "fst (m t)") (auto split: prod.splits sum.splits)

lemma br_loop:
  assumes s: "appended_balanced s t" and body: "\<And>t1. balanced_result t1 (body t1)"
  shows "balanced_result s (loop body t)"
proof (cases "body (execute ''['' t)")
  case (Pair r t')
  show ?thesis
  proof (cases r)
    case (Inl e)
    with Pair show ?thesis by (simp add: loop_def balanced_result_def)
  next
    case (Inr u)
    with Pair body [of "execute ''['' t"] have "appended_balanced (execute ''['' t) t'"
      by (simp add: balanced_result_def)
    then have "appended_balanced s (execute '']'' t')"
      using s ab_loop_step ab_trans by blast
    with Pair Inr show ?thesis by (simp add: loop_def balanced_result_def Let_def)
  qed
qed

lemma ab_move_targets: "appended_balanced s t \<Longrightarrow> appended_balanced s (move_targets ts m t)"
  by (induction ts arbitrary: t) (simp_all add: ab_execute ab_goto bal_times)

lemma br_move_cell: "appended_balanced s t \<Longrightarrow> balanced_result s (move_cell a ts m t)"
  unfolding move_cell_def
  by (intro br_loop br_ret ab_goto ab_move_targets ab_execute ab_refl) simp_all

lemma br_ByteType_new: "appended_balanced s t \<Longrightarrow> balanced_result s (ByteType_new t)"
  using ab_allocate [of s t] by (cases "allocate t") (simp add: ByteType_new_def balanced_result_def)

lemma br_copy: "appended_balanced s t \<Longrightarrow> balanced_result s (copy b t)"
  using copy_result [of b t] by (cases "copy b t") (simp add: balanced_result_def)

named_theorems brs
lemmas balanced_rules [brs] = br_ret br_seq br_loop br_move_cell br_ByteType_new br_copy ab_execute ab_goto
  ab_free_cell ab_free ab_refl

lemma br_assign: "balanced_result s (assign x y s)"
  unfolding assign_def Let_def by (intro brs) simp_all

lemma br_assign_virtual: "balanced_result s (assign_virtual x v s)"
  unfolding assign_virtual_def Let_def by (intro brs) (simp_all add: bal_times)

lemma br_succ: "balanced_result s (succ x s)"
  unfolding succ_def Let_def by (intro brs) (simp_all add: bal_times)

lemma br_iadd: "balanced_result s (iadd x y s)"
  unfolding iadd_def Let_def by (intro brs) (simp_all add: bal_times)

lemma br_imul: "balanced_result s (imul x y s)"
  unfolding imul_def Let_def by (intro brs) (simp_all add: bal_times)

lemma br_imul_virtual: "balanced_result s (imul_virtual x v s)"
  unfolding imul_virtual_def Let_def by (intro brs) (simp_all add: bal_times)

lemma br_nnot: "balanced_result s (nnot x s)"
  unfolding nnot_def Let_def by (intro brs) (simp_all add: bal_times)

lemma br_eq: "balanced_result s (eq x y s)"
  unfolding eq_def Let_def by (intro brs) (simp_all add: bal_times)

lemma br_read: "balanced_result s (read s)"
  unfolding read_def Let_def 
  using ab_allocate [OF ab_refl, of s]
  by (cases "allocate s") (auto simp: balanced_result_def intro!: brs)

lemma br_write_byte: "balanced_result s (write_byte x s)"
  unfolding write_byte_def Let_def by (intro brs) (simp_all add: bal_times)

lemma br_isub: "balanced_result s (isub x y s)"
  by (simp add: isub_def raise_def balanced_result_def)

lemma br_pred: "balanced_result s (pred x s)"
  unfolding pred_def Let_def by (intro brs) simp_all

lemma br_iadd_virtual: "balanced_result s (iadd_virtual x v s)"
  unfolding iadd_virtual_def Let_def by (intro brs) (simp_all add: bal_times)

lemma br_isub_virtual: "balanced_result s (isub_virtual x v s)"
  unfolding isub_virtual_def Let_def by (intro brs) (simp_all add: bal_times)

text \<open>
  C4. Loop balance and fault. When the body returns, \<open>loop\<close> has emitted \<^verbatim>\<open>[\<close> before
  the body and \<^verbatim>\<open>]\<close> after it, it raises the fault "unbalanced loop" exactly when the
  recorded head after the body differs from the one at entry, and it returns otherwise;
  if the brackets the body emitted are matched, so are those of the loop. A loop around
  any body whose emitted brackets are matched when it returns, \<open>move_cell\<close> and each
  intrinsic emit matched brackets whenever they return, so every \<^verbatim>\<open>[\<close> of a successful
  compilation has its \<^verbatim>\<open>]\<close>.
\<close>

theorem loop_balance_and_fault:
  "(body (execute ''['' s) = (Inr u, s') \<longrightarrow>
      program (execute ''['' s) = program s @ [''['']
      \<and> program (snd (loop body s)) = program s' @ ['']'']
      \<and> (fst (loop body s) = Inl UnbalancedLoop \<longleftrightarrow> current_index s' \<noteq> current_index s)
      \<and> (fst (loop body s) = Inr () \<longleftrightarrow> current_index s' = current_index s)
      \<and> (appended_balanced (execute ''['' s) s' \<longrightarrow> appended_balanced s (snd (loop body s))))
   \<and> ((\<forall>t. balanced_result t (body t)) \<longrightarrow> balanced_result s (loop body s))
   \<and> balanced_result s (move_cell src dsts m s)
   \<and> balanced_result s (assign x y s)
   \<and> balanced_result s (assign_virtual x v s)
   \<and> balanced_result s (succ x s)
   \<and> balanced_result s (pred x s)
   \<and> balanced_result s (iadd x y s)
   \<and> balanced_result s (iadd_virtual x v s)
   \<and> balanced_result s (isub x y s)
   \<and> balanced_result s (isub_virtual x v s)
   \<and> balanced_result s (imul x y s)
   \<and> balanced_result s (imul_virtual x v s)
   \<and> balanced_result s (nnot x s)
   \<and> balanced_result s (eq x y s)
   \<and> balanced_result s (read s)
   \<and> balanced_result s (write_byte x s)"
proof -
  have "body (execute ''['' s) = (Inr u, s') \<longrightarrow>
      program (execute ''['' s) = program s @ [''['']
      \<and> program (snd (loop body s)) = program s' @ ['']'']
      \<and> (fst (loop body s) = Inl UnbalancedLoop \<longleftrightarrow> current_index s' \<noteq> current_index s)
      \<and> (fst (loop body s) = Inr () \<longleftrightarrow> current_index s' = current_index s)
      \<and> (appended_balanced (execute ''['' s) s' \<longrightarrow> appended_balanced s (snd (loop body s)))"
  proof
    assume b: "body (execute ''['' s) = (Inr u, s')"
    then have l: "loop body s =
        (if current_index s \<noteq> current_index s' then Inl UnbalancedLoop else Inr (),
         execute '']'' s')"
      by (simp add: loop_def Let_def)
    have "appended_balanced (execute ''['' s) s' \<longrightarrow> appended_balanced s (snd (loop body s))"
      using l by (simp add: ab_loop_step)
    moreover have "program (execute ''['' s) = program s @ [''['']"
      "program (snd (loop body s)) = program s' @ ['']'']"
      using l by (simp_all add: execute_def)
    moreover have "fst (loop body s) = Inl UnbalancedLoop \<longleftrightarrow> current_index s' \<noteq> current_index s"
      "fst (loop body s) = Inr () \<longleftrightarrow> current_index s' = current_index s"
      using l by auto
    ultimately show "program (execute ''['' s) = program s @ [''['']
      \<and> program (snd (loop body s)) = program s' @ ['']'']
      \<and> (fst (loop body s) = Inl UnbalancedLoop \<longleftrightarrow> current_index s' \<noteq> current_index s)
      \<and> (fst (loop body s) = Inr () \<longleftrightarrow> current_index s' = current_index s)
      \<and> (appended_balanced (execute ''['' s) s' \<longrightarrow> appended_balanced s (snd (loop body s)))"
      by blast
  qed
  moreover have "(\<forall>t. balanced_result t (body t)) \<longrightarrow> balanced_result s (loop body s)"
    by (simp add: br_loop ab_refl)
  ultimately show ?thesis
    by (simp add: ab_refl br_move_cell br_assign br_assign_virtual br_succ br_pred br_iadd
        br_iadd_virtual br_isub br_isub_virtual br_imul br_imul_virtual br_nnot br_eq br_read
        br_write_byte)
qed

theorem loop_balance_and_fault_witness:
  "fst (loop (\<lambda>t. ret () (goto 0 (goto 2 t))) Compiler_init) = Inr ()
   \<and> program (snd (loop (\<lambda>t. ret () (goto 0 (goto 2 t))) Compiler_init))
       = [''['', ''>>'', ''<<'', '']'']
   \<and> appended_balanced Compiler_init
         (snd (loop (\<lambda>t. ret () (goto 0 (goto 2 t))) Compiler_init))
   \<and> balanced_result Compiler_init (loop (\<lambda>t. ret () (goto 0 (goto 2 t))) Compiler_init)
   \<and> fst (loop (\<lambda>t. ret () (goto 1 t)) Compiler_init) = Inl UnbalancedLoop"
proof -
  let ?body = "\<lambda>t. ret () (goto 0 (goto 2 t))"
  let ?s' = "\<lparr>program = [''['', ''>>'', ''<<''], current_index = 0, non_allocated = 0, gaps = []\<rparr>"
  let ?t' = "\<lparr>program = [''['', ''>''], current_index = 1, non_allocated = 0, gaps = []\<rparr>"
  have b: "?body (execute ''['' Compiler_init) = (Inr (), ?s')"
    by (simp add: ret_def goto_def execute_def times_def Compiler_init_def numeral_2_eq_2)
  have ab: "appended_balanced (execute ''['' Compiler_init) ?s'"
    by (simp add: appended_balanced_def emitted_since_def execute_def Compiler_init_def)
  have br: "\<forall>t. balanced_result t (?body t)"
    by (intro allI brs)
  have c: "(\<lambda>t. ret () (goto 1 t)) (execute ''['' Compiler_init) = (Inr (), ?t')"
    by (simp add: ret_def goto_def execute_def times_def Compiler_init_def)
  from loop_balance_and_fault [where body = ?body and s = Compiler_init and u = "()" and s' = ?s']
    b ab br
  have "fst (loop ?body Compiler_init) = Inr ()"
    "program (snd (loop ?body Compiler_init)) = [''['', ''>>'', ''<<'', '']'']"
    "appended_balanced Compiler_init (snd (loop ?body Compiler_init))"
    "balanced_result Compiler_init (loop ?body Compiler_init)"
    by (simp_all add: Compiler_init_def)
  moreover from loop_balance_and_fault [where body = "\<lambda>t. ret () (goto 1 t)"
      and s = Compiler_init and u = "()" and s' = ?t'] c
  have "fst (loop (\<lambda>t. ret () (goto 1 t)) Compiler_init) = Inl UnbalancedLoop"
    by (simp add: Compiler_init_def)
  ultimately show ?thesis by blast
qed

section \<open>Assignment and the allocator\<close>

lemma alloc_execute [simp]:
  "non_allocated (execute c s) = non_allocated s" "gaps (execute c s) = gaps s"
  by (simp_all add: execute_def)

lemma alloc_goto [simp]:
  "non_allocated (goto k s) = non_allocated s" "gaps (goto k s) = gaps s"
  by (simp_all add: goto_def)

lemma alloc_move_targets [simp]:
  "non_allocated (move_targets ts m s) = non_allocated s" "gaps (move_targets ts m s) = gaps s"
  by (induction ts arbitrary: s) simp_all

lemma alloc_move_cell [simp]:
  "non_allocated (snd (move_cell a ts m s)) = non_allocated s"
  "gaps (snd (move_cell a ts m s)) = gaps s"
  by (simp_all add: move_cell_def loop_def Let_def ret_def)

text \<open>
  C6. The intrinsic \<^verbatim>\<open>=\<close> on two bytes. The claim asks that the source byte is freed.
  \<open>assign\<close> returns \<^verbatim>\<open>None\<close> and leaves the allocator as it was, for every pair of
  bytes and every compiler state. With \<open>x\<close> at cell 0 and \<open>y\<close> at cell 1, both allocated:
  it emits the zeroing of cell 0 and the move from cell 1 to cell 0, and cell 1 is still
  allocated afterwards; after \<open>iadd\<close>, which calls \<^verbatim>\<open>y.free()\<close>, it is not.
\<close>

theorem assign_keeps_source_allocated:
  "fst (assign x y s) = Inr ()
   \<and> non_allocated (snd (assign x y s)) = non_allocated s
   \<and> gaps (snd (assign x y s)) = gaps s
   \<and> (let s2 = snd (allocate (snd (allocate Compiler_init)));
           x0 = Byte ByteType 0; y1 = Byte ByteType 1
       in program (snd (assign x0 y1 s2)) = [[], ''[-]'', ''>'', ''['', ''-'', ''<'', ''+'', ''>'', '']'']
          \<and> live (snd (assign x0 y1 s2)) 1
          \<and> \<not> live (snd (iadd x0 y1 s2)) 1)"
proof -
  have "fst (assign x y s) = Inr ()"
    by (simp add: assign_def Let_def move_cell_result)
  moreover have "non_allocated (snd (assign x y s)) = non_allocated s"
    "gaps (snd (assign x y s)) = gaps s"
    by (simp_all add: assign_def Let_def)
  moreover have "program (snd (assign (Byte ByteType 0) (Byte ByteType 1)
      (snd (allocate (snd (allocate Compiler_init))))))
    = [[], ''[-]'', ''>'', ''['', ''-'', ''<'', ''+'', ''>'', '']'']"
    by (simp add: assign_def Let_def move_cell_def loop_def ret_def goto_def execute_def
        times_def allocate_def Compiler_init_def)
  moreover have "live (snd (assign (Byte ByteType 0) (Byte ByteType 1)
      (snd (allocate (snd (allocate Compiler_init)))))) 1"
    by (simp add: live_def assign_def Let_def allocate_def Compiler_init_def)
  moreover have "\<not> live (snd (iadd (Byte ByteType 0) (Byte ByteType 1)
      (snd (allocate (snd (allocate Compiler_init)))))) 1"
    by (simp add: live_def iadd_def seq_move_cell ret_def free_def free_cell_def Let_def
        allocate_def Compiler_init_def)
  ultimately show ?thesis by (simp add: Let_def)
qed

section \<open>The machine: fuel, matching brackets, loops\<close>

lemma run_mono: "run n code m = Some m' \<Longrightarrow> n \<le> k \<Longrightarrow> run k code m = Some m'"
proof (induction n arbitrary: code m m' k)
  case 0
  then show ?case by simp
next
  case (Suc n)
  from Suc.prems(2) obtain k' where k: "k = Suc k'" and le: "n \<le> k'"
    by (cases k) auto
  show ?case
  proof (cases code)
    case Nil
    with Suc.prems k show ?thesis by simp
  next
    case (Cons c cs)
    show ?thesis
    proof (cases "c = CHR ''[''")
      case True
      show ?thesis
      proof (cases "split_loop 0 cs")
        case None
        with Suc.prems Cons True show ?thesis by simp
      next
        case (Some p)
        obtain body rest where p: "p = (body, rest)" by (cases p)
        show ?thesis
        proof (cases "tape m (head m) = 0")
          case z: True
          with Suc.prems Cons True Some p have "run n rest m = Some m'" by simp
          from Suc.IH [OF this le] show ?thesis
            using Cons True Some p z k by simp
        next
          case nz: False
          with Suc.prems Cons True Some p obtain m1 where
            b: "run n body m = Some m1" and r: "run n (c # cs) m1 = Some m'"
            by (auto split: option.splits)
          from Suc.IH [OF b le] Suc.IH [OF r le] show ?thesis
            using Cons True Some p nz k by simp
        qed
      qed
    next
      case False
      with Suc.prems Cons have nb: "c \<noteq> CHR '']''" and r: "run n cs (step c m) = Some m'"
        by (auto split: if_splits)
      from Suc.IH [OF r le] show ?thesis
        using Cons False nb k by simp
    qed
  qed
qed

lemma runs_Nil: "runs [] m m"
  unfolding runs_def by (rule exI [of _ 1]) simp

lemma split_loop_bal: "bal d body \<Longrightarrow> split_loop d (body @ CHR '']'' # rest) = Some (body, rest)"
proof (induction body arbitrary: d)
  case Nil
  then show ?case by simp
next
  case (Cons c body)
  show ?case
  proof (cases "c = CHR '']''")
    case True
    with Cons.prems have "d \<noteq> 0" "bal (d - 1) body" by auto
    with Cons.IH [of "d - 1"] True show ?thesis by simp
  next
    case False
    with Cons.prems Cons.IH [of "Suc d"] Cons.IH [of d] show ?thesis
      by (cases "c = CHR ''[''") auto
  qed
qed

lemma bal_split:
  "bal (Suc d) cs \<Longrightarrow>
   \<exists>body rest. split_loop d cs = Some (body, rest) \<and> bal d body \<and> bal 0 rest"
proof (induction cs arbitrary: d)
  case Nil
  then show ?case by simp
next
  case (Cons c cs)
  show ?case
  proof (cases "c = CHR '']''")
    case True
    show ?thesis
    proof (cases d)
      case 0
      with Cons.prems True show ?thesis by simp
    next
      case (Suc d')
      with Cons.prems True have "bal (Suc d') cs" by simp
      from Cons.IH [OF this] obtain body rest where
        "split_loop d' cs = Some (body, rest)" "bal d' body" "bal 0 rest" by blast
      with True Suc show ?thesis by simp
    qed
  next
    case False
    show ?thesis
    proof (cases "c = CHR ''[''")
      case True
      with Cons.prems have "bal (Suc (Suc d)) cs" by simp
      from Cons.IH [OF this] obtain body rest where
        "split_loop (Suc d) cs = Some (body, rest)" "bal (Suc d) body" "bal 0 rest" by blast
      with True show ?thesis by simp
    next
      case nb: False
      with False Cons.prems have "bal (Suc d) cs" by simp
      from Cons.IH [OF this] obtain body rest where
        "split_loop d cs = Some (body, rest)" "bal d body" "bal 0 rest" by blast
      with False nb show ?thesis by simp
    qed
  qed
qed

lemma split_loop_append:
  "split_loop d cs = Some (body, rest) \<Longrightarrow> split_loop d (cs @ b) = Some (body, rest @ b)"
proof (induction cs arbitrary: d body)
  case Nil
  then show ?case by simp
next
  case (Cons c cs)
  show ?case
  proof (cases "c = CHR '']'' \<and> d = 0")
    case True
    with Cons.prems show ?thesis by auto
  next
    case False
    define d' where "d' = (if c = CHR ''['' then Suc d else if c = CHR '']'' then d - 1 else d)"
    have e: "split_loop d (c # xs) =
        (case split_loop d' xs of None \<Rightarrow> None | Some (bd, r) \<Rightarrow> Some (c # bd, r))" for xs
      using False unfolding d'_def by (cases "c = CHR '']''"; cases "c = CHR ''[''"; auto)
    show ?thesis
    proof (cases "split_loop d' cs")
      case None
      with Cons.prems e [of cs] show ?thesis by simp
    next
      case (Some p)
      obtain body' rest' where p: "p = (body', rest')" by (cases p)
      with Some Cons.prems e [of cs] have b: "body = c # body'" and r: "rest' = rest" by simp_all
      from Some p r have "split_loop d' cs = Some (body', rest)" by simp
      from Cons.IH [OF this] have "split_loop d' (cs @ b) = Some (body', rest @ b)" .
      with e [of "cs @ b"] b show ?thesis by simp
    qed
  qed
qed

lemma run_append:
  "run n a m = Some m1 \<Longrightarrow> bal 0 a \<Longrightarrow> run k b m1 = Some m2 \<Longrightarrow>
   run (n + k) (a @ b) m = Some m2"
proof (induction n arbitrary: a m)
  case 0
  then show ?case by simp
next
  case (Suc n)
  show ?case
  proof (cases a)
    case Nil
    with Suc.prems have "m1 = m" by simp
    have "run k b m = Some m2"
      using Suc.prems(3) \<open>m1 = m\<close> by simp
    then have "run (Suc n + k) b m = Some m2"
      by (rule run_mono) simp
    with Nil show ?thesis by simp
  next
    case (Cons c cs)
    show ?thesis
    proof (cases "c = CHR ''[''")
      case True
      with Suc.prems(2) Cons have "bal (Suc 0) cs" by simp
      from bal_split [OF this] obtain body rest where
        sp: "split_loop 0 cs = Some (body, rest)" and bb: "bal 0 body" and br: "bal 0 rest"
        by blast
      have sp': "split_loop 0 (cs @ b) = Some (body, rest @ b)"
        using sp by (rule split_loop_append)
      show ?thesis
      proof (cases "tape m (head m) = 0")
        case z: True
        with Suc.prems(1) Cons True sp have "run n rest m = Some m1" by simp
        from Suc.IH [OF this br Suc.prems(3)] show ?thesis
          using Cons True sp' z by simp
      next
        case nz: False
        with Suc.prems(1) Cons True sp obtain m' where
          b1: "run n body m = Some m'" and r: "run n (c # cs) m' = Some m1"
          by (auto split: option.splits)
        have "bal 0 (c # cs)" using Suc.prems(2) Cons by simp
        from Suc.IH [OF r this Suc.prems(3)] have "run (n + k) ((c # cs) @ b) m' = Some m2" .
        moreover have "run (n + k) body m = Some m'"
          using b1 by (rule run_mono) simp
        ultimately show ?thesis
          using Cons True sp' nz by simp
      qed
    next
      case False
      with Suc.prems(1,2) Cons have nb: "c \<noteq> CHR '']''" and r: "run n cs (step c m) = Some m1"
        and bc: "bal 0 cs"
        by (auto split: if_splits)
      from Suc.IH [OF r bc Suc.prems(3)] show ?thesis
        using Cons False nb by simp
    qed
  qed
qed

lemma runs_append: "runs a m m1 \<Longrightarrow> bal 0 a \<Longrightarrow> runs b m1 m2 \<Longrightarrow> runs (a @ b) m m2"
  unfolding runs_def using run_append by blast

lemma runs_single:
  "c \<noteq> CHR ''['' \<Longrightarrow> c \<noteq> CHR '']'' \<Longrightarrow> runs [c] m (step c m)"
  unfolding runs_def by (rule exI [of _ 2]) (simp add: numeral_2_eq_2)

lemma runs_loop_exit:
  assumes "bal 0 body" and "tape m (head m) = 0"
  shows "runs (CHR ''['' # body @ '']'') m m"
proof -
  have "split_loop 0 (body @ '']'') = Some (body, [])"
    using assms(1) by (rule split_loop_bal)
  with assms(2) have "run 2 (CHR ''['' # body @ '']'') m = Some m"
    by (simp add: numeral_2_eq_2)
  then show ?thesis unfolding runs_def by blast
qed

lemma runs_loop_again:
  assumes "bal 0 body" and "tape m (head m) \<noteq> 0"
    and "runs body m m1" and "runs (CHR ''['' # body @ '']'') m1 m2"
  shows "runs (CHR ''['' # body @ '']'') m m2"
proof -
  from assms(3,4) obtain n1 n2 where
    n1: "run n1 body m = Some m1" and n2: "run n2 (CHR ''['' # body @ '']'') m1 = Some m2"
    unfolding runs_def by blast
  have sp: "split_loop 0 (body @ '']'') = Some (body, [])"
    using assms(1) by (rule split_loop_bal)
  have "run (max n1 n2) body m = Some m1"
    using n1 by (rule run_mono) simp
  moreover have "run (max n1 n2) (CHR ''['' # body @ '']'') m1 = Some m2"
    using n2 by (rule run_mono) simp
  ultimately have "run (Suc (max n1 n2)) (CHR ''['' # body @ '']'') m = Some m2"
    using sp assms(2) by simp
  then show ?thesis unfolding runs_def by blast
qed

lemma runs_while:
  assumes body: "bal 0 body"
    and step: "\<And>N. I N \<Longrightarrow> tape N (head N) \<noteq> 0 \<Longrightarrow>
      \<exists>N'. runs body N N' \<and> I N' \<and> unat (tape N' (head N')) < unat (tape N (head N))"
    and inv: "I M"
  shows "\<exists>M'. runs (CHR ''['' # body @ '']'') M M' \<and> I M' \<and> tape M' (head M') = 0"
  using inv
proof (induction "unat (tape M (head M))" arbitrary: M rule: less_induct)
  case less
  show ?case
  proof (cases "tape M (head M) = 0")
    case True
    with runs_loop_exit [OF body True] less.prems show ?thesis by blast
  next
    case False
    from step [OF less.prems False] obtain N' where
      r: "runs body M N'" and i: "I N'" and d: "unat (tape N' (head N')) < unat (tape M (head M))"
      by blast
    from less.hyps [OF d i] obtain M' where
      "runs (CHR ''['' # body @ '']'') N' M'" "I M'" "tape M' (head M') = 0" by blast
    with runs_loop_again [OF body False r] show ?thesis by blast
  qed
qed

section \<open>Emitted text on the machine\<close>

lemma bal_simple: "\<forall>c\<in>set cs. c \<noteq> CHR ''['' \<and> c \<noteq> CHR '']'' \<Longrightarrow> bal d cs = (d = 0)"
  by (induction cs) auto

lemma step_fields [simp]:
  "head (step (CHR ''+'') N) = head N" "inp (step (CHR ''+'') N) = inp N"
  "outp (step (CHR ''+'') N) = outp N"
  "tape (step (CHR ''+'') N) = (tape N)(head N := tape N (head N) + 1)"
  "head (step (CHR ''-'') N) = head N" "inp (step (CHR ''-'') N) = inp N"
  "outp (step (CHR ''-'') N) = outp N"
  "tape (step (CHR ''-'') N) = (tape N)(head N := tape N (head N) - 1)"
  "head (step (CHR ''>'') N) = head N + 1" "inp (step (CHR ''>'') N) = inp N"
  "outp (step (CHR ''>'') N) = outp N" "tape (step (CHR ''>'') N) = tape N"
  "head (step (CHR ''<'') N) = head N - 1" "inp (step (CHR ''<'') N) = inp N"
  "outp (step (CHR ''<'') N) = outp N" "tape (step (CHR ''<'') N) = tape N"
  "head (step (CHR ''.'') N) = head N" "inp (step (CHR ''.'') N) = inp N"
  "outp (step (CHR ''.'') N) = outp N @ [tape N (head N)]" "tape (step (CHR ''.'') N) = tape N"
  by (simp_all add: step_def)

lemma runs_right:
  "\<exists>N'. runs (replicate k (CHR ''>'')) N N' \<and> head N' = head N + int k \<and> tape N' = tape N
     \<and> inp N' = inp N \<and> outp N' = outp N"
proof (induction k arbitrary: N)
  case 0
  show ?case using runs_Nil [of N] by auto
next
  case (Suc k)
  from Suc [of "step (CHR ''>'') N"] obtain N' where
    r: "runs (replicate k (CHR ''>'')) (step (CHR ''>'') N) N'"
    and f: "head N' = head N + 1 + int k" "tape N' = tape N" "inp N' = inp N" "outp N' = outp N"
    by auto
  have "runs ([CHR ''>''] @ replicate k (CHR ''>'')) N N'"
    by (rule runs_append [OF runs_single _ r]) simp_all
  with f show ?case by auto
qed

lemma runs_left:
  "\<exists>N'. runs (replicate k (CHR ''<'')) N N' \<and> head N' = head N - int k \<and> tape N' = tape N
     \<and> inp N' = inp N \<and> outp N' = outp N"
proof (induction k arbitrary: N)
  case 0
  show ?case using runs_Nil [of N] by auto
next
  case (Suc k)
  from Suc [of "step (CHR ''<'') N"] obtain N' where
    r: "runs (replicate k (CHR ''<'')) (step (CHR ''<'') N) N'"
    and f: "head N' = head N - 1 - int k" "tape N' = tape N" "inp N' = inp N" "outp N' = outp N"
    by auto
  have "runs ([CHR ''<''] @ replicate k (CHR ''<'')) N N'"
    by (rule runs_append [OF runs_single _ r]) simp_all
  with f show ?case by auto
qed

lemma runs_plus:
  "\<exists>N'. runs (replicate k (CHR ''+'')) N N' \<and> head N' = head N
     \<and> tape N' = (tape N)(head N := tape N (head N) + of_nat k)
     \<and> inp N' = inp N \<and> outp N' = outp N"
proof (induction k arbitrary: N)
  case 0
  show ?case using runs_Nil [of N] by auto
next
  case (Suc k)
  let ?N1 = "step (CHR ''+'') N"
  from Suc [of ?N1] obtain N' where
    r: "runs (replicate k (CHR ''+'')) ?N1 N'"
    and f: "head N' = head ?N1"
      "tape N' = (tape ?N1)(head ?N1 := tape ?N1 (head ?N1) + of_nat k)"
      "inp N' = inp ?N1" "outp N' = outp ?N1"
    by blast
  have t: "tape N' = (tape N)(head N := tape N (head N) + of_nat (Suc k))"
    using f(2) by (simp add: ac_simps)
  have "runs ([CHR ''+''] @ replicate k (CHR ''+'')) N N'"
    by (rule runs_append [OF runs_single _ r]) simp_all
  with f t show ?case by auto
qed

lemma tracks_refl: "head M = current_index s \<Longrightarrow> tracks s s M M"
  by (simp add: tracks_def ab_refl emitted_since_def runs_Nil)

lemma tracks_extend:
  assumes t: "tracks s t M M1"
    and p: "program t' = program t @ xs"
    and b: "bal 0 (concat xs)"
    and r: "runs (concat xs) M1 M2"
    and h: "head M2 = current_index t'"
  shows "tracks s t' M M2"
proof -
  from t obtain ys where ys: "program t = program s @ ys" and bys: "bal 0 (concat ys)"
    and ry: "runs (concat ys) M M1"
    by (auto simp: tracks_def appended_balanced_iff emitted_since_def)
  have p': "program t' = program s @ (ys @ xs)" using p ys by simp
  have "bal 0 (concat (ys @ xs))" using bys b by (simp add: bal_append0)
  moreover have "runs (concat (ys @ xs)) M M2"
    using runs_append [OF ry bys r] by simp
  ultimately show ?thesis
    using p' h unfolding tracks_def appended_balanced_iff emitted_since_def by auto
qed

lemma tracks_same:
  "tracks s t M M1 \<Longrightarrow> program t' = program t \<Longrightarrow> current_index t' = current_index t \<Longrightarrow>
   tracks s t' M M1"
  by (simp add: tracks_def appended_balanced_def emitted_since_def)

lemma tracks_runs: "tracks s t M M1 \<Longrightarrow> runs (emitted_since s t) M M1"
  by (simp add: tracks_def)

lemma tracks_execute:
  "tracks s t M M1 \<Longrightarrow> bal 0 code \<Longrightarrow> runs code M1 M2 \<Longrightarrow> head M2 = head M1 \<Longrightarrow>
   tracks s (execute code t) M M2"
  by (rule tracks_extend [where xs = "[code]"]) (simp_all add: execute_def tracks_def)

lemma tracks_goto:
  assumes "tracks s t M M1"
  shows "\<exists>M2. tracks s (goto k t) M M2 \<and> head M2 = k \<and> tape M2 = tape M1
    \<and> inp M2 = inp M1 \<and> outp M2 = outp M1"
proof -
  have h: "head M1 = current_index t" using assms by (simp add: tracks_def)
  show ?thesis
  proof (cases "current_index t < k")
    case True
    from runs_right [of "nat (k - current_index t)" M1] obtain M2 where
      r: "runs (times (CHR ''>'') (k - current_index t)) M1 M2" and f: "head M2 = k"
      "tape M2 = tape M1" "inp M2 = inp M1" "outp M2 = outp M1"
      using True h by (auto simp: times_def)
    have "tracks s (goto k t) M M2"
      by (rule tracks_extend [OF assms _ _ _, where xs = "[times (CHR ''>'') (k - current_index t)]"])
        (use True r f in \<open>simp_all add: goto_def execute_def bal_times\<close>)
    with f show ?thesis by blast
  next
    case False
    from runs_left [of "nat (current_index t - k)" M1] obtain M2 where
      r: "runs (times (CHR ''<'') (current_index t - k)) M1 M2" and f: "head M2 = k"
      "tape M2 = tape M1" "inp M2 = inp M1" "outp M2 = outp M1"
      using False h by (auto simp: times_def)
    have "tracks s (goto k t) M M2"
      by (rule tracks_extend [OF assms _ _ _, where xs = "[times (CHR ''<'') (current_index t - k)]"])
        (use False r f in \<open>simp_all add: goto_def execute_def bal_times\<close>)
    with f show ?thesis by blast
  qed
qed

lemma tracks_loop:
  assumes pre: "tracks s t M M1"
    and b: "body (execute ''['' t) = (Inr (), t')"
    and c: "current_index t' = current_index t"
    and ab: "appended_balanced (execute ''['' t) t'"
    and inv: "I M1"
    and hd: "\<And>N. I N \<Longrightarrow> head N = current_index t"
    and step: "\<And>N. I N \<Longrightarrow> tape N (head N) \<noteq> 0 \<Longrightarrow>
      \<exists>N'. runs (emitted_since (execute ''['' t) t') N N' \<and> I N'
        \<and> unat (tape N' (head N')) < unat (tape N (head N))"
  shows "loop body t = (Inr (), execute '']'' t')
    \<and> (\<exists>M2. tracks s (execute '']'' t') M M2 \<and> I M2 \<and> tape M2 (head M2) = 0)"
proof -
  have l: "loop body t = (Inr (), execute '']'' t')"
    using b c by (simp add: loop_def Let_def)
  from ab obtain xs where xs: "program t' = program t @ [''[''] @ xs" and bx: "bal 0 (concat xs)"
    by (auto simp: appended_balanced_iff execute_def)
  have e: "emitted_since (execute ''['' t) t' = concat xs"
    using xs by (simp add: emitted_since_def execute_def)
  from runs_while [of "concat xs" I M1, OF bx _ inv] step e obtain M2 where
    r: "runs (CHR ''['' # concat xs @ '']'') M1 M2" and i: "I M2" and z: "tape M2 (head M2) = 0"
    by auto
  have "tracks s (execute '']'' t') M M2"
  proof (rule tracks_extend [OF pre, where xs = "[''[''] @ xs @ ['']'']"])
    show "program (execute '']'' t') = program t @ [''[''] @ xs @ ['']'']"
      using xs by (simp add: execute_def)
    show "bal 0 (concat ([''[''] @ xs @ ['']'']))"
      using bal_bracket [OF bx] by simp
    show "runs (concat ([''[''] @ xs @ ['']''])) M1 M2"
      using r by simp
    show "head M2 = current_index (execute '']'' t')"
      using hd [OF i] c by simp
  qed
  with l i z show ?thesis by blast
qed

lemma unat_pred_less:
  assumes "(w :: 8 word) \<noteq> 0"
  shows "unat (w - 1) < unat w"
proof -
  have "unat w \<noteq> 0"
    using assms by (simp add: unat_eq_zero)
  moreover have "unat (w - 1) = unat w - 1"
    using assms by (rule unat_minus_one)
  ultimately show ?thesis by arith
qed

lemma tracks_plus:
  assumes "tracks s t M M1"
  shows "\<exists>M2. tracks s (execute (times (CHR ''+'') m) t) M M2 \<and> head M2 = head M1
    \<and> tape M2 = (tape M1)(head M1 := tape M1 (head M1) + of_nat (nat m))
    \<and> inp M2 = inp M1 \<and> outp M2 = outp M1"
proof -
  from runs_plus [of "nat m" M1] obtain M2 where
    r: "runs (times (CHR ''+'') m) M1 M2" and f: "head M2 = head M1"
    "tape M2 = (tape M1)(head M1 := tape M1 (head M1) + of_nat (nat m))"
    "inp M2 = inp M1" "outp M2 = outp M1"
    by (auto simp: times_def)
  have "tracks s (execute (times (CHR ''+'') m) t) M M2"
    using assms _ r f(1) by (rule tracks_execute) (simp add: bal_times)
  with f show ?thesis by blast
qed

lemma tracks_char:
  assumes "tracks s t M M1" and "c \<noteq> CHR ''[''" "c \<noteq> CHR '']''" "c \<noteq> CHR ''>''" "c \<noteq> CHR ''<''"
  shows "tracks s (execute [c] t) M (step c M1)"
  using assms(1)
proof (rule tracks_execute)
  show "bal 0 [c]" using assms by simp
  show "runs [c] M1 (step c M1)" using assms by (simp add: runs_single)
  show "head (step c M1) = head M1" using assms by (simp add: step_def split: list.splits)
qed

lemma tracks_move_targets:
  "tracks s t M M1 \<Longrightarrow>
   \<exists>M2. tracks s (move_targets ts m t) M M2
     \<and> tape M2 = (\<lambda>d. tape M1 d + of_nat (count_list ts d * nat m))
     \<and> inp M2 = inp M1 \<and> outp M2 = outp M1"
proof (induction ts arbitrary: t M1)
  case Nil
  then show ?case by auto
next
  case (Cons a ts)
  from tracks_goto [OF Cons.prems, of a] obtain N1 where
    n1: "tracks s (goto a t) M N1" "head N1 = a" "tape N1 = tape M1"
    "inp N1 = inp M1" "outp N1 = outp M1" by blast
  from tracks_plus [OF n1(1), of m] obtain N2 where
    n2: "tracks s (execute (times (CHR ''+'') m) (goto a t)) M N2"
    "tape N2 = (tape N1)(head N1 := tape N1 (head N1) + of_nat (nat m))"
    "inp N2 = inp N1" "outp N2 = outp N1" by blast
  from Cons.IH [OF n2(1)] obtain M2 where
    m2: "tracks s (move_targets ts m (execute (times (CHR ''+'') m) (goto a t))) M M2"
    "tape M2 = (\<lambda>d. tape N2 d + of_nat (count_list ts d * nat m))"
    "inp M2 = inp N2" "outp M2 = outp N2" by blast
  have "tape M2 d = tape M1 d + of_nat (count_list (a # ts) d * nat m)" for d
    unfolding m2(2) n2(2) n1(2,3) by (simp add: algebra_simps)
  then have t: "tape M2 = (\<lambda>d. tape M1 d + of_nat (count_list (a # ts) d * nat m))"
    by (simp add: fun_eq_iff)
  have i: "inp M2 = inp M1" and out: "outp M2 = outp M1"
    using m2(3,4) n2(3,4) n1(4,5) by simp_all
  have "tracks s (move_targets (a # ts) m t) M M2"
    using m2(1) by simp
  with t i out show ?case by blast
qed

lemma tracks_move_cell:
  assumes pre: "tracks s t M M1" and ns: "src \<notin> set dsts"
  shows "\<exists>M2. tracks s (snd (move_cell src dsts m t)) M M2 \<and> head M2 = src \<and> tape M2 src = 0
    \<and> (\<forall>d. d \<noteq> src \<longrightarrow>
          tape M2 d = tape M1 d + of_nat (count_list dsts d * nat m) * tape M1 src)
    \<and> inp M2 = inp M1 \<and> outp M2 = outp M1"
proof -
  define c :: "int \<Rightarrow> 8 word" where "c d = of_nat (count_list dsts d * nat m)" for d
  have c0: "c src = 0" using ns by (simp add: c_def)
  define body :: "unit comp" where
    "body = (\<lambda>s1. ret () (goto src (move_targets dsts m (execute ''-'' s1))))"
  define t0 where "t0 = goto src t"
  define t1 where "t1 = execute ''['' t0"
  define t' where "t' = goto src (move_targets dsts m (execute ''-'' t1))"
  define I :: "machine \<Rightarrow> bool" where "I N \<longleftrightarrow> head N = src \<and> inp N = inp M1 \<and> outp N = outp M1
    \<and> (\<forall>d. d \<noteq> src \<longrightarrow> tape N d + c d * tape N src = tape M1 d + c d * tape M1 src)" for N
  from tracks_goto [OF pre, of src] obtain N0 where
    n0: "tracks s t0 M N0" "head N0 = src" "tape N0 = tape M1"
    "inp N0 = inp M1" "outp N0 = outp M1" unfolding t0_def by blast
  have b: "body (execute ''['' t0) = (Inr (), t')"
    by (simp add: body_def t'_def t1_def ret_def)
  have ci: "current_index t' = current_index t0"
    by (simp add: t'_def t0_def)
  have ab: "appended_balanced (execute ''['' t0) t'"
    unfolding t'_def t1_def by (intro ab_goto ab_move_targets ab_execute ab_refl) simp
  have i0: "I N0" using n0 by (simp add: I_def)
  have hd: "head N = current_index t0" if "I N" for N
    using that by (simp add: I_def t0_def)
  have step: "\<exists>N'. runs (emitted_since (execute ''['' t0) t') N N' \<and> I N'
        \<and> unat (tape N' (head N')) < unat (tape N (head N))"
    if i: "I N" and nz: "tape N (head N) \<noteq> 0" for N
  proof -
    have h: "head N = src" using i by (simp add: I_def)
    have "tracks t1 t1 N N"
      by (rule tracks_refl) (simp add: t1_def t0_def h)
    then have a1: "tracks t1 (execute ''-'' t1) N (step (CHR ''-'') N)"
      by (rule tracks_char) simp_all
    from tracks_move_targets [OF a1, of dsts m] obtain N2 where
      n2: "tracks t1 (move_targets dsts m (execute ''-'' t1)) N N2"
      "tape N2 = (\<lambda>d. tape (step (CHR ''-'') N) d + c d)"
      "inp N2 = inp N" "outp N2 = outp N" by (auto simp: c_def)
    from tracks_goto [OF n2(1), of src] obtain N' where
      n': "tracks t1 t' N N'" "head N' = src" "tape N' = tape N2"
      "inp N' = inp N2" "outp N' = outp N2" unfolding t'_def by blast
    have ts: "tape N' src = tape N src - 1"
      using n'(3) n2(2) h c0 by simp
    have td: "tape N' d = tape N d + c d" if "d \<noteq> src" for d
      using n'(3) n2(2) h that by simp
    have "I N'"
      unfolding I_def
    proof (intro conjI allI impI)
      show "head N' = src" by (rule n'(2))
      show "inp N' = inp M1" using n'(4) n2(3) i by (simp add: I_def)
      show "outp N' = outp M1" using n'(5) n2(4) i by (simp add: I_def)
      fix d assume d: "d \<noteq> src"
      have "tape N' d + c d * tape N' src = tape N d + c d * tape N src"
        unfolding ts td [OF d] by (simp add: algebra_simps)
      also have "\<dots> = tape M1 d + c d * tape M1 src"
        using i d by (simp add: I_def)
      finally show "tape N' d + c d * tape N' src = tape M1 d + c d * tape M1 src" .
    qed
    moreover have "unat (tape N' (head N')) < unat (tape N (head N))"
      using ts n'(2) h nz by (simp add: unat_pred_less)
    moreover have "runs (emitted_since (execute ''['' t0) t') N N'"
      using n'(1) by (simp add: tracks_def t1_def)
    ultimately show ?thesis by blast
  qed
  from tracks_loop [of s t0 M N0 body t' I, OF n0(1) b ci ab i0 hd step]
  obtain M2 where l: "loop body t0 = (Inr (), execute '']'' t')"
    and m2: "tracks s (execute '']'' t') M M2" "I M2" "tape M2 (head M2) = 0"
    by blast
  have mc: "snd (move_cell src dsts m t) = execute '']'' t'"
    using l by (simp add: move_cell_def body_def t0_def)
  have f: "head M2 = src" "inp M2 = inp M1" "outp M2 = outp M1"
    using m2(2) by (simp_all add: I_def)
  have z: "tape M2 src = 0"
    using m2(3) f(1) by simp
  have "tape M2 d = tape M1 d + c d * tape M1 src" if d: "d \<noteq> src" for d
  proof -
    have "tape M2 d + c d * tape M2 src = tape M1 d + c d * tape M1 src"
      using m2(2) d unfolding I_def by blast
    then show ?thesis unfolding z by simp
  qed
  then have "\<forall>d. d \<noteq> src \<longrightarrow>
      tape M2 d = tape M1 d + of_nat (count_list dsts d * nat m) * tape M1 src"
    unfolding c_def by blast
  moreover have "tracks s (snd (move_cell src dsts m t)) M M2"
    unfolding mc by (rule m2(1))
  ultimately show ?thesis
    using f z by blast
qed

section \<open>\<open>move_cell\<close> on the machine\<close>

text \<open>
  C3. Postcondition of \<open>move_cell\<close>, as the code has it. With the machine's head where the
  compiler records it and the source not among the destinations, the text emitted by
  \<open>move_cell src dsts m\<close> runs to completion, leaves the head at \<open>src\<close> and \<open>src\<close> at zero,
  and adds to every other cell the initial value of \<open>src\<close> times \<open>m\<close> (zero times when
  \<open>m\<close> is negative), once for each time the cell occurs among the destinations: cells
  that are no destination keep their content, a destination that occurs once gets
  \<open>m\<close> times the initial value of \<open>src\<close>. Input and output are untouched.
\<close>

theorem move_cell_postcondition:
  assumes "head M = current_index s" and "src \<notin> set dsts"
  shows "fst (move_cell src dsts m s) = Inr ()
    \<and> (\<exists>M'. runs (emitted_since s (snd (move_cell src dsts m s))) M M'
          \<and> head M' = src \<and> tape M' src = 0
          \<and> (\<forall>d. d \<noteq> src \<longrightarrow>
                tape M' d = tape M d + of_nat (count_list dsts d * nat m) * tape M src)
          \<and> inp M' = inp M \<and> outp M' = outp M)"
proof -
  have "tracks s s M M" using assms(1) by (rule tracks_refl)
  from tracks_move_cell [OF this assms(2), of m] show ?thesis
    by (auto simp: move_cell_result dest: tracks_runs)
qed

text \<open>The postcondition at \<open>move_cell 0 [1, 2] 2\<close> with cell 0 holding 3.\<close>

theorem move_cell_postcondition_witness:
  "head ((machine_init [])\<lparr>tape := (tape (machine_init []))(0 := 3)\<rparr>) = current_index Compiler_init
   \<and> (0::int) \<notin> set [1, 2]
   \<and> fst (move_cell 0 [1, 2] 2 Compiler_init) = Inr ()
   \<and> (\<exists>M'. runs (emitted_since Compiler_init (snd (move_cell 0 [1, 2] 2 Compiler_init)))
            ((machine_init [])\<lparr>tape := (tape (machine_init []))(0 := 3)\<rparr>) M'
          \<and> head M' = 0 \<and> tape M' 0 = 0 \<and> tape M' 1 = 6 \<and> tape M' 2 = 6 \<and> tape M' 3 = 0)"
proof -
  let ?M = "(machine_init [])\<lparr>tape := (tape (machine_init []))(0 := 3)\<rparr>"
  have h: "head ?M = current_index Compiler_init"
    by (simp add: machine_init_def Compiler_init_def)
  have n: "(0::int) \<notin> set [1, 2]" by simp
  from move_cell_postcondition [OF h n, of 2] obtain M' where
    r: "runs (emitted_since Compiler_init (snd (move_cell 0 [1, 2] 2 Compiler_init))) ?M M'"
    and f: "head M' = 0" "tape M' 0 = 0"
    and t: "\<forall>d. d \<noteq> 0 \<longrightarrow> tape M' d = tape ?M d + of_nat (count_list [1, 2] d * nat 2) * tape ?M 0"
    and ok: "fst (move_cell 0 [1, 2] 2 Compiler_init) = Inr ()"
    by blast
  from t have "tape M' 1 = 6" "tape M' 2 = 6" "tape M' 3 = 0"
    by (simp_all add: machine_init_def)
  with h n r f ok show ?thesis by blast
qed

text \<open>
  The claim as stated, "adds \<open>m\<close> times the initial value of \<open>src\<close> to each destination",
  fails when a destination is repeated: \<^verbatim>\<open>move_cell(0, 1, 1)\<close> with cell 0 holding 1
  emits \<^verbatim>\<open>[->++<]\<close> and leaves 2 in cell 1, not 1.
\<close>

theorem move_cell_repeated_destination:
  "cell_after 10 (emitted (snd (move_cell 0 [1, 1] 1 Compiler_init)))
     ((machine_init [])\<lparr>tape := (tape (machine_init []))(0 := 1)\<rparr>) 1 = Some 2
   \<and> cell_after 10 (emitted (snd (move_cell 0 [1, 1] 1 Compiler_init)))
       ((machine_init [])\<lparr>tape := (tape (machine_init []))(0 := 1)\<rparr>) 1
     \<noteq> Some (tape ((machine_init [])\<lparr>tape := (tape (machine_init []))(0 := 1)\<rparr>) 1
          + word_of_int 1 * tape ((machine_init [])\<lparr>tape := (tape (machine_init []))(0 := 1)\<rparr>) 0)"
proof -
  have e: "emitted (snd (move_cell 0 [1, 1] 1 Compiler_init)) = ''[->++<]''"
    by (simp add: emitted_def move_cell_def loop_def ret_def goto_def execute_def
        times_def Let_def Compiler_init_def)
  have "cell_after 10 ''[->++<]''
     ((machine_init [])\<lparr>tape := (tape (machine_init []))(0 := 1)\<rparr>) 1 = Some 2"
    by (simp add: cell_after_def machine_init_def step_def eval_nat_numeral)
  then show ?thesis
    unfolding e by (simp add: machine_init_def)
qed

section \<open>The multiply program\<close>

lemma ByteType_new_eq:
  "ByteType_new s = (Inr (Byte ByteType (fst (allocate s))), snd (allocate s))"
  by (cases "allocate s") (simp add: ByteType_new_def)

lemma iadd_virtual_eq:
  "iadd_virtual x v s = (Inr x, execute (times (CHR ''+'') (vint_value v)) (goto (pointer x) s))"
  by (simp add: iadd_virtual_def Let_def ret_def)

lemma seq_Inr: "m s = (Inr v, s') \<Longrightarrow> seq m f s = f v s'"
  by (simp add: seq_def)

lemma imul_virtual_eq:
  "imul_virtual x v s =
     (Inr x,
      snd (move_cell (fst (allocate s)) [pointer x] 1
        (snd (move_cell (pointer x) [fst (allocate s)] (vint_value v) (snd (allocate s))))))"
  unfolding imul_virtual_def seq_Inr [OF ByteType_new_eq]
  by (simp add: seq_move_cell ret_def)

lemma write_byte_eq: "write_byte x s = (Inr (), execute ''.'' (goto (pointer x) s))"
  by (simp add: write_byte_def Let_def ret_def)

lemma multiply_program_result:
  "multiply_program A B Compiler_init =
     (Inr (),
      execute ''.'' (goto 0
        (snd (move_cell 1 [0] 1
          (snd (move_cell 0 [1] B
            (snd (allocate
              (execute (times (CHR ''+'') A) (goto 0 (snd (allocate Compiler_init))))))))))))"
proof -
  have a: "fst (allocate Compiler_init) = 0"
    by (simp add: allocate_def Compiler_init_def)
  have b: "fst (allocate (execute (times (CHR ''+'') A) (goto 0 (snd (allocate Compiler_init))))) = 1"
    by (simp add: allocate_def Compiler_init_def)
  show ?thesis
    by (simp add: multiply_program_def seq_def ByteType_new_eq iadd_virtual_eq imul_virtual_eq
        write_byte_eq a b)
qed

lemma word8_product:
  assumes "0 \<le> A" "0 \<le> B"
  shows "(of_nat (nat B) * of_nat (nat A) :: 8 word) = word_of_int ((A * B) mod 256)"
proof -
  have "take_bit LENGTH(8) ((A * B) mod 256) = take_bit LENGTH(8) (A * B)"
    by (simp add: take_bit_eq_mod)
  then have "(word_of_int ((A * B) mod 256) :: 8 word) = word_of_int (A * B)"
    by (rule word_of_int_eq_iff [THEN iffD2])
  moreover have "(of_nat (nat B) * of_nat (nat A) :: 8 word) = word_of_int (A * B)"
    using assms by (simp add: mult.commute)
  ultimately show ?thesis by simp
qed

text \<open>
  C5. End-to-end multiply. For \<open>A\<close> and \<open>B\<close> from 0 to 255, compiling
  \<^verbatim>\<open>byte x; x += A; x *= B; write(x);\<close> from the initial compiler returns without a fault,
  and the emitted text, run on the machine from an all-zero tape with any input, stops
  with the single output byte \<open>(A * B) mod 256\<close>.
\<close>

theorem multiply_outputs_product:
  assumes "0 \<le> A" "A \<le> 255" "0 \<le> B" "B \<le> 255"
  shows "\<exists>s' M'. multiply_program A B Compiler_init = (Inr (), s')
    \<and> runs (emitted s') (machine_init bs) M'
    \<and> outp M' = [word_of_int ((A * B) mod 256)]"
proof -
  let ?C = Compiler_init and ?M = "machine_init bs"
  define s1 where "s1 = snd (allocate ?C)"
  define s3 where "s3 = execute (times (CHR ''+'') A) (goto 0 s1)"
  define s4 where "s4 = snd (allocate s3)"
  define s5 where "s5 = snd (move_cell 0 [1] B s4)"
  define s6 where "s6 = snd (move_cell 1 [0] 1 s5)"
  define s8 where "s8 = execute ''.'' (goto 0 s6)"
  have res: "multiply_program A B ?C = (Inr (), s8)"
    unfolding s8_def s6_def s5_def s4_def s3_def s1_def by (rule multiply_program_result)
  have "tracks ?C ?C ?M ?M"
    by (rule tracks_refl) (simp add: machine_init_def Compiler_init_def)
  then have t1: "tracks ?C s1 ?M ?M"
    by (rule tracks_same) (simp_all add: s1_def allocate_def Compiler_init_def)
  from tracks_goto [OF t1, of 0] obtain N1 where
    n1: "tracks ?C (goto 0 s1) ?M N1" "head N1 = 0" "tape N1 = tape ?M" "outp N1 = outp ?M"
    by blast
  from tracks_plus [OF n1(1), of A] obtain N2 where
    n2: "tracks ?C s3 ?M N2" "tape N2 = (tape N1)(head N1 := tape N1 (head N1) + of_nat (nat A))"
    "outp N2 = outp N1"
    unfolding s3_def by blast
  have a2: "tape N2 0 = of_nat (nat A)" "tape N2 1 = 0"
    using n2(2) n1(2,3) by (simp_all add: machine_init_def)
  have t4: "tracks ?C s4 ?M N2"
    using n2(1) by (rule tracks_same) (simp_all add: s4_def allocate_def)
  from tracks_move_cell [OF t4, of 0 "[1]" B] obtain N3 where
    n3: "tracks ?C s5 ?M N3" "tape N3 0 = 0"
    "\<forall>d. d \<noteq> 0 \<longrightarrow> tape N3 d = tape N2 d + of_nat (count_list [1] d * nat B) * tape N2 0"
    "outp N3 = outp N2"
    unfolding s5_def by auto
  have a3: "tape N3 1 = of_nat (nat B) * of_nat (nat A)"
    using n3(3) a2 by simp
  from tracks_move_cell [OF n3(1), of 1 "[0]" 1] obtain N4 where
    n4: "tracks ?C s6 ?M N4"
    "\<forall>d. d \<noteq> 1 \<longrightarrow> tape N4 d = tape N3 d + of_nat (count_list [0] d * nat 1) * tape N3 1"
    "outp N4 = outp N3"
    unfolding s6_def by auto
  have a4: "tape N4 0 = of_nat (nat B) * of_nat (nat A)"
    using n4(2) n3(2) a3 by simp
  from tracks_goto [OF n4(1), of 0] obtain N5 where
    n5: "tracks ?C (goto 0 s6) ?M N5" "head N5 = 0" "tape N5 = tape N4" "outp N5 = outp N4"
    by blast
  have t8: "tracks ?C s8 ?M (step (CHR ''.'') N5)"
    unfolding s8_def using n5(1) by (rule tracks_char) simp_all
  have "emitted_since ?C s8 = emitted s8"
    by (simp add: emitted_since_def emitted_def Compiler_init_def)
  with t8 have r: "runs (emitted s8) ?M (step (CHR ''.'') N5)"
    by (simp add: tracks_def)
  have "outp (step (CHR ''.'') N5) = [of_nat (nat B) * of_nat (nat A)]"
    using n5 n4(3) n3(4) n2(3) n1(4) a4 by (simp add: machine_init_def)
  then have "outp (step (CHR ''.'') N5) = [word_of_int ((A * B) mod 256)]"
    using word8_product [OF assms(1,3)] by simp
  with res r show ?thesis by blast
qed

text \<open>At \<open>A = 6\<close> and \<open>B = 7\<close>: the emitted text, and the output 42.\<close>

theorem multiply_outputs_product_witness:
  "(0::int) \<le> 6 \<and> (6::int) \<le> 255 \<and> (0::int) \<le> 7 \<and> (7::int) \<le> 255
   \<and> emitted (snd (multiply_program 6 7 Compiler_init)) = ''++++++[->+++++++<]>[-<+>]<.''
   \<and> (\<exists>s' M'. multiply_program 6 7 Compiler_init = (Inr (), s')
         \<and> runs (emitted s') (machine_init []) M' \<and> outp M' = [42])"
proof -
  have e: "emitted (snd (multiply_program 6 7 Compiler_init)) = ''++++++[->+++++++<]>[-<+>]<.''"
    unfolding multiply_program_result
    by (simp add: emitted_def move_cell_def loop_def ret_def goto_def execute_def times_def
        allocate_def Let_def Compiler_init_def eval_nat_numeral)
  from multiply_outputs_product [of 6 7 "[]"] e show ?thesis by simp
qed

section \<open>Logical negation\<close>

lemma runs_clear:
  "\<exists>N'. runs ''[-]'' N N' \<and> head N' = head N \<and> tape N' = (tape N)(head N := 0)
     \<and> inp N' = inp N \<and> outp N' = outp N"
proof -
  define I :: "machine \<Rightarrow> bool" where
    "I K \<longleftrightarrow> head K = head N \<and> inp K = inp N \<and> outp K = outp N
       \<and> (\<forall>d. d \<noteq> head N \<longrightarrow> tape K d = tape N d)" for K
  have step: "\<exists>K'. runs ''-'' K K' \<and> I K' \<and> unat (tape K' (head K')) < unat (tape K (head K))"
    if "I K" "tape K (head K) \<noteq> 0" for K
  proof -
    have "runs ''-'' K (step (CHR ''-'') K)" by (rule runs_single) simp_all
    moreover have "I (step (CHR ''-'') K)" using that(1) by (simp add: I_def)
    moreover have "unat (tape (step (CHR ''-'') K) (head (step (CHR ''-'') K)))
        < unat (tape K (head K))"
      using that(2) by (simp add: unat_pred_less)
    ultimately show ?thesis by blast
  qed
  have "I N" by (simp add: I_def)
  from runs_while [of "''-''" I N, OF _ step this] obtain N' where
    r: "runs (CHR ''['' # ''-'' @ '']'') N N'" and i: "I N'" and z: "tape N' (head N') = 0"
    by auto
  have "tape N' d = ((tape N)(head N := 0)) d" for d
    using i z by (cases "d = head N") (simp_all add: I_def)
  then have "tape N' = (tape N)(head N := 0)" by (simp add: fun_eq_iff)
  with r i show ?thesis by (auto simp: I_def)
qed

lemma tracks_clear:
  assumes "tracks s t M M1"
  shows "\<exists>M2. tracks s (execute ''[-]'' t) M M2 \<and> head M2 = head M1
    \<and> tape M2 = (tape M1)(head M1 := 0) \<and> inp M2 = inp M1 \<and> outp M2 = outp M1"
proof -
  from runs_clear [of M1] obtain M2 where
    r: "runs ''[-]'' M1 M2" and f: "head M2 = head M1" "tape M2 = (tape M1)(head M1 := 0)"
    "inp M2 = inp M1" "outp M2 = outp M1" by blast
  have "tracks s (execute ''[-]'' t) M M2"
    using assms _ r f(1) by (rule tracks_execute) simp
  with f show ?thesis by blast
qed

lemma tracks_clear_set:
  assumes "tracks s t M M1"
  shows "\<exists>M2. tracks s (execute ''[-]+'' t) M M2 \<and> head M2 = head M1
    \<and> tape M2 = (tape M1)(head M1 := 1) \<and> inp M2 = inp M1 \<and> outp M2 = outp M1"
proof -
  from runs_clear [of M1] obtain N where
    r: "runs ''[-]'' M1 N" and f: "head N = head M1" "tape N = (tape M1)(head M1 := 0)"
    "inp N = inp M1" "outp N = outp M1" by blast
  have "runs (''[-]'' @ ''+'') M1 (step (CHR ''+'') N)"
    by (rule runs_append [OF r]) (simp_all add: runs_single)
  then have r2: "runs ''[-]+'' M1 (step (CHR ''+'') N)" by simp
  have "tracks s (execute ''[-]+'' t) M (step (CHR ''+'') N)"
    using assms _ r2 by (rule tracks_execute) (simp_all add: f)
  moreover have "tape (step (CHR ''+'') N) = (tape M1)(head M1 := 1)"
    by (simp add: f)
  ultimately show ?thesis using f by auto
qed

lemma allocate_not_live: "live s i \<Longrightarrow> fst (allocate s) \<noteq> i"
  by (auto simp: live_def allocate_def)

lemma allocate_frame:
  "program (snd (allocate s)) = program s" "current_index (snd (allocate s)) = current_index s"
  "gaps (snd (allocate s)) = gaps s" "non_allocated s \<le> non_allocated (snd (allocate s))"
  by (simp_all add: allocate_def)

text \<open>
  C10. The intrinsic \<^verbatim>\<open>!\<close> does not free its operand. When the cell of \<open>x\<close> is allocated and
  the machine's head is where the compiler records it, \<open>nnot x\<close> returns the byte at the
  newly allocated cell, which is another cell than that of \<open>x\<close>; it leaves \<open>gaps\<close> as it
  was and does not lower \<open>non_allocated\<close>, so the cell of \<open>x\<close> is still allocated; and the
  emitted text runs to completion and leaves the cell of \<open>x\<close> holding zero.
\<close>

theorem nnot_keeps_operand:
  assumes lv: "live s (pointer x)" and hd: "head M = current_index s"
  shows "\<exists>y s'. nnot x s = (Inr y, s') \<and> y = Byte ByteType (fst (allocate s))
    \<and> pointer y \<noteq> pointer x
    \<and> gaps s' = gaps s \<and> non_allocated s \<le> non_allocated s' \<and> live s' (pointer x)
    \<and> (\<exists>M'. runs (emitted_since s s') M M' \<and> head M' = pointer x \<and> tape M' (pointer x) = 0)"
proof -
  define a where "a = fst (allocate s)"
  define px where "px = pointer x"
  define s1 where "s1 = snd (allocate s)"
  define s4 where "s4 = goto px (execute ''[-]+'' (goto a s1))"
  define body :: "unit comp" where
    "body = (\<lambda>t. ret () (goto px (execute ''-'' (goto a (execute ''[-]'' t)))))"
  define t1 where "t1 = execute ''['' s4"
  define t' where "t' = goto px (execute ''-'' (goto a (execute ''[-]'' t1)))"
  define s' where "s' = execute '']'' t'"
  define I :: "machine \<Rightarrow> bool" where "I N \<longleftrightarrow> head N = px" for N
  have ne: "a \<noteq> px"
    using lv unfolding a_def px_def by (rule allocate_not_live)
  have b: "body (execute ''['' s4) = (Inr (), t')"
    by (simp add: body_def t'_def t1_def ret_def)
  have ci: "current_index t' = current_index s4"
    by (simp add: t'_def s4_def)
  have ab: "appended_balanced (execute ''['' s4) t'"
    unfolding t'_def t1_def by (intro ab_goto ab_execute ab_refl) simp_all
  have "tracks s s M M" using hd by (rule tracks_refl)
  then have "tracks s s1 M M"
    by (rule tracks_same) (simp_all add: s1_def allocate_frame)
  from tracks_goto [OF this, of a] obtain N1 where
    n1: "tracks s (goto a s1) M N1" by blast
  from tracks_clear_set [OF n1] obtain N2 where
    n2: "tracks s (execute ''[-]+'' (goto a s1)) M N2" by blast
  from tracks_goto [OF n2, of px] obtain N3 where
    n3: "tracks s s4 M N3" "head N3 = px" unfolding s4_def by blast
  have i0: "I N3" using n3(2) by (simp add: I_def)
  have ih: "head N = current_index s4" if "I N" for N
    using that by (simp add: I_def s4_def)
  have step: "\<exists>N'. runs (emitted_since (execute ''['' s4) t') N N' \<and> I N'
      \<and> unat (tape N' (head N')) < unat (tape N (head N))"
    if i: "I N" and nz: "tape N (head N) \<noteq> 0" for N
  proof -
    have h: "head N = px" using i by (simp add: I_def)
    have "tracks t1 t1 N N"
      by (rule tracks_refl) (simp add: t1_def s4_def h)
    from tracks_clear [OF this] obtain Na where
      na: "tracks t1 (execute ''[-]'' t1) N Na" "tape Na = (tape N)(head N := 0)" by blast
    from tracks_goto [OF na(1), of a] obtain Nb where
      nb: "tracks t1 (goto a (execute ''[-]'' t1)) N Nb" "head Nb = a" "tape Nb = tape Na"
      by blast
    have nc: "tracks t1 (execute ''-'' (goto a (execute ''[-]'' t1))) N (step (CHR ''-'') Nb)"
      using nb(1) by (rule tracks_char) simp_all
    from tracks_goto [OF nc, of px] obtain Nd where
      nd: "tracks t1 t' N Nd" "head Nd = px" "tape Nd = tape (step (CHR ''-'') Nb)"
      unfolding t'_def by blast
    have z: "tape Nd px = 0"
      using nd(3) nb(2,3) na(2) h ne by simp
    have "unat (tape Nd (head Nd)) < unat (tape N (head N))"
      using z nd(2) nz by (simp add: unat_gt_0)
    moreover have "I Nd" using nd(2) by (simp add: I_def)
    moreover have "runs (emitted_since (execute ''['' s4) t') N Nd"
      using nd(1) by (simp add: tracks_def t1_def)
    ultimately show ?thesis by blast
  qed
  from tracks_loop [of s s4 M N3 body t' I, OF n3(1) b ci ab i0 ih step]
  obtain M2 where l: "loop body s4 = (Inr (), s')"
    and m2: "tracks s s' M M2" "I M2" "tape M2 (head M2) = 0"
    unfolding s'_def by blast
  have res: "nnot x s = (Inr (Byte ByteType a), s')"
    unfolding nnot_def seq_Inr [OF ByteType_new_eq]
    using l by (simp add: Let_def seq_def ret_def body_def s4_def s1_def a_def px_def)
  have g: "gaps s' = gaps s" "non_allocated s' = non_allocated s1"
    by (simp_all add: s'_def t'_def t1_def s4_def s1_def allocate_frame)
  have n: "non_allocated s \<le> non_allocated s'"
    using g(2) by (simp add: s1_def allocate_frame)
  have lv': "live s' (pointer x)"
    using lv g(1) n by (simp add: live_def)
  have "runs (emitted_since s s') M M2" "head M2 = pointer x" "tape M2 (pointer x) = 0"
    using m2 by (simp_all add: tracks_def I_def px_def)
  with res g(1) n lv' ne show ?thesis
    unfolding a_def px_def by auto
qed

text \<open>With \<open>x\<close> at cell 0, allocated and holding 5: the result is at cell 1.\<close>

theorem nnot_keeps_operand_witness:
  "live (snd (allocate Compiler_init)) (pointer (Byte ByteType 0))
   \<and> head ((machine_init [])\<lparr>tape := (tape (machine_init []))(0 := 5)\<rparr>)
       = current_index (snd (allocate Compiler_init))
   \<and> (\<exists>y s'. nnot (Byte ByteType 0) (snd (allocate Compiler_init)) = (Inr y, s')
         \<and> pointer y = 1 \<and> live s' 0
         \<and> (\<exists>M'. runs (emitted_since (snd (allocate Compiler_init)) s')
                    ((machine_init [])\<lparr>tape := (tape (machine_init []))(0 := 5)\<rparr>) M'
               \<and> tape M' 0 = 0))"
proof -
  let ?s = "snd (allocate Compiler_init)"
  let ?M = "(machine_init [])\<lparr>tape := (tape (machine_init []))(0 := 5)\<rparr>"
  have l: "live ?s (pointer (Byte ByteType 0))"
    by (simp add: live_def allocate_def Compiler_init_def)
  have h: "head ?M = current_index ?s"
    by (simp add: machine_init_def allocate_def Compiler_init_def)
  have a: "fst (allocate ?s) = 1"
    by (simp add: allocate_def Compiler_init_def)
  from nnot_keeps_operand [OF l h] a l h show ?thesis
    by auto
qed

end
